theory Spec2Isabelle
  imports Main "HOL-Library.Sublist" "HOL-Library.AList"
begin

section \<open>Strings and characters of the JavaScript sources\<close>

text \<open>
  A JavaScript string is modelled as a \<^typ>\<open>string\<close>: one \<^typ>\<open>char\<close> per code unit, for
  code units below 256. The character classes are those of the regular expressions of the
  renderer restricted to that range: \<open>\s\<close> (also what \<open>trim\<close> strips) and \<open>\w\<close> extended by
  the hyphen, as in \<open>[\w-]\<close>.
\<close>

definition is_space :: "char \<Rightarrow> bool" where
  "is_space c = (c \<in> set [CHR 0x09, CHR 0x0A, CHR 0x0B, CHR 0x0C, CHR 0x0D, CHR 0x20, CHR 0xA0])"

definition is_word :: "char \<Rightarrow> bool" where
  "is_word c = (let n = (of_char c :: nat) in
     (48 \<le> n \<and> n \<le> 57) \<or> (65 \<le> n \<and> n \<le> 90) \<or> (97 \<le> n \<and> n \<le> 122) \<or> n = 95)"

definition is_name :: "char \<Rightarrow> bool" where
  "is_name c = (is_word c \<or> c = CHR ''-'')"

definition to_upper :: "char \<Rightarrow> char" where
  "to_upper c = (let n = (of_char c :: nat) in
     if 97 \<le> n \<and> n \<le> 122 then char_of (n - 32) else c)"

definition trim :: "string \<Rightarrow> string" where
  "trim s = rev (dropWhile is_space (rev (dropWhile is_space s)))"

fun contains :: "string \<Rightarrow> string \<Rightarrow> bool" where
  "contains p [] = (p = [])"
| "contains p (c # cs) = (prefix p (c # cs) \<or> contains p cs)"

section \<open>Reading time\<close>

text \<open>
  \<open>String.prototype.split\<close> with the separator \<open>/\s+/\<close>: the pieces between the maximal
  runs of white space; the empty string gives the single piece \<open>''''\<close>.
\<close>

function split_ws :: "string \<Rightarrow> string \<Rightarrow> string list" where
  "split_ws cur [] = [cur]"
| "split_ws cur (c # cs) =
     (if is_space c then cur # split_ws [] (dropWhile is_space cs)
      else split_ws (cur @ [c]) cs)"
  by pat_completeness auto
termination
  by (relation "measure (\<lambda>(cur, s). length s)")
     (auto simp: less_Suc_eq_le length_dropWhile_le)

record reading_time =
  chars :: nat
  words :: nat
  minutes :: nat

definition wordsPerMinute :: nat where
  "wordsPerMinute = 200"

text \<open>\<open>Math.ceil (words / wordsPerMinute)\<close> on natural numbers.\<close>

definition calculateReadingTime :: "string \<Rightarrow> reading_time" where
  "calculateReadingTime text =
     (let ws = length (split_ws [] (trim text));
          ms = (ws + (wordsPerMinute - 1)) div wordsPerMinute
      in \<lparr> chars = length text, words = ws, minutes = ms \<rparr>)"

text \<open>
  The white-space-delimited word count the reading time is meant to report: the number of
  maximal runs of characters that are not white space.
\<close>

fun word_count :: "string \<Rightarrow> nat" where
  "word_count [] = 0"
| "word_count (c # cs) =
     (if is_space c then word_count cs
      else (case cs of [] \<Rightarrow> 1
            | d # ds \<Rightarrow> if is_space d then Suc (word_count cs) else word_count cs))"

section \<open>Regular expressions of the renderer\<close>

text \<open>
  The patterns of \<open>processCSS\<close> are sequences of literal characters (exact, or
  under the \<open>i\<close> flag in either letter case: \<open>Ci l u\<close> with the lower-case and the
  upper-case character), \<open>\s*\<close> and \<open>[\w-]+\<close> (\<open>NameS\<close> is \<open>[\w-]*\<close>, the rest of a
  name). In every pattern the item that follows \<open>\s*\<close> is not a white-space character
  and the item that follows \<open>[\w-]+\<close> is not a name character, so the greedy match is
  the only one and no backtracking is needed. \<open>pmatch p s\<close> is the length of the match
  of \<open>p\<close> at the start of \<open>s\<close>.
\<close>

datatype atom = Ch char | Ci char char | Ws | Name1 | NameS

fun pmatch :: "atom list \<Rightarrow> string \<Rightarrow> nat option" where
  "pmatch [] s = Some 0"
| "pmatch (Ch c # p) [] = None"
| "pmatch (Ch c # p) (x # xs) = (if x = c then map_option Suc (pmatch p xs) else None)"
| "pmatch (Ci l u # p) [] = None"
| "pmatch (Ci l u # p) (x # xs) =
     (if x = l \<or> x = u then map_option Suc (pmatch p xs) else None)"
| "pmatch (Ws # p) [] = pmatch p []"
| "pmatch (Ws # p) (x # xs) =
     (if is_space x then map_option Suc (pmatch (Ws # p) xs) else pmatch p (x # xs))"
| "pmatch (Name1 # p) [] = None"
| "pmatch (Name1 # p) (x # xs) =
     (if is_name x then map_option Suc (pmatch (NameS # p) xs) else None)"
| "pmatch (NameS # p) [] = pmatch p []"
| "pmatch (NameS # p) (x # xs) =
     (if is_name x then map_option Suc (pmatch (NameS # p) xs) else pmatch p (x # xs))"

definition lit :: "string \<Rightarrow> atom list" where
  "lit s = map Ch s"

definition lit_ci :: "string \<Rightarrow> atom list" where
  "lit_ci s = map (\<lambda>c. Ci c (to_upper c)) s"

text \<open>
  \<open>String.prototype.replace\<close> with a global regular expression whose matches are not
  empty: the text is scanned from the left, a match is replaced and the scan goes on
  behind it. As a replacement callback does, the matcher gets the whole text and the
  offset of the position, besides the text from the position on; it gives the length of
  the match and its replacement.
\<close>

type_synonym matcher = "string \<Rightarrow> nat \<Rightarrow> string \<Rightarrow> (nat \<times> string) option"

function replace_all :: "matcher \<Rightarrow> string \<Rightarrow> nat \<Rightarrow> string \<Rightarrow> string" where
  "replace_all m whole off [] = []"
| "replace_all m whole off (c # cs) =
     (case m whole off (c # cs) of
        None \<Rightarrow> c # replace_all m whole (Suc off) cs
      | Some (n, r) \<Rightarrow> r @ replace_all m whole (Suc off + (n - 1)) (drop (n - 1) cs))"
  by pat_completeness auto
termination
  by (relation "measure (\<lambda>(m, whole, off, s). length s)") auto

definition js_replace :: "matcher \<Rightarrow> string \<Rightarrow> string" where
  "js_replace m s = replace_all m s 0 s"

text \<open>The first match of a pattern in a text (\<open>match\<close>, \<open>exec\<close>, \<open>test\<close>).\<close>

fun find_first :: "(string \<Rightarrow> 'a option) \<Rightarrow> string \<Rightarrow> 'a option" where
  "find_first f [] = f []"
| "find_first f (c # cs) = (case f (c # cs) of Some r \<Rightarrow> Some r | None \<Rightarrow> find_first f cs)"

text \<open>A replacement that is a fixed text without \<open>$\<close>.\<close>

definition pat_matcher :: "atom list \<Rightarrow> string \<Rightarrow> matcher" where
  "pat_matcher p r = (\<lambda>whole off t. map_option (\<lambda>n. (n, r)) (pmatch p t))"

definition replace_pat :: "atom list \<Rightarrow> string \<Rightarrow> string \<Rightarrow> string" where
  "replace_pat p r s = js_replace (pat_matcher p r) s"

text \<open>
  The replacement patterns of a replacement string, for a regular expression without
  capture groups: \<open>$$\<close>, \<open>$&\<close>, \<open>$`\<close> and \<open>$'\<close>; any other \<open>$\<close> stands for itself.
\<close>

fun expand_repl :: "string \<Rightarrow> string \<Rightarrow> string \<Rightarrow> string \<Rightarrow> string" where
  "expand_repl matched bef aft [] = []"
| "expand_repl matched bef aft [c] = [c]"
| "expand_repl matched bef aft (c # d # t) =
     (if c = CHR ''$'' \<and> d = CHR ''$'' then CHR ''$'' # expand_repl matched bef aft t
      else if c = CHR ''$'' \<and> d = CHR ''&'' then matched @ expand_repl matched bef aft t
      else if c = CHR ''$'' \<and> d = CHR 0x60 then bef @ expand_repl matched bef aft t
      else if c = CHR ''$'' \<and> d = CHR 0x27 then aft @ expand_repl matched bef aft t
      else c # expand_repl matched bef aft (d # t))"

section \<open>The CSS variable resolver\<close>

text \<open>
  \<open>/:root\s*\{([\s\S]*?)\}/i\<close> at the start of a text: the length of the match and the
  content of the block, which ends at the first closing brace.
\<close>

definition root_pat :: "atom list" where
  "root_pat = lit_ci '':root'' @ [Ws, Ch (CHR ''{'')]"

definition root_block :: "string \<Rightarrow> (nat \<times> string) option" where
  "root_block s =
     (case pmatch root_pat s of
        None \<Rightarrow> None
      | Some k \<Rightarrow>
          (let body = drop k s; content = takeWhile (\<lambda>c. c \<noteq> CHR ''}'') body
           in if length content < length body
              then Some (k + length content + 1, content) else None))"

text \<open>
  \<open>/(--[\w-]+)\s*:\s*([^;]+);/\<close> at the start of a text: the length of the match, the
  name and the value. The value runs to the next semicolon. When the semicolon follows
  the white space behind the colon at once, \<open>\s*\<close> gives its last character back and
  that character is the value; with no white space there, there is no match.
\<close>

definition decl_pat :: "atom list" where
  "decl_pat = [Ch (CHR ''-''), Ch (CHR ''-''), Name1, Ws, Ch (CHR '':''), Ws]"

definition var_decl :: "string \<Rightarrow> (nat \<times> string \<times> string) option" where
  "var_decl s =
     (case pmatch decl_pat s of
        None \<Rightarrow> None
      | Some k \<Rightarrow>
          (let name = ''--'' @ takeWhile is_name (drop 2 s);
               rest = drop k s;
               val = takeWhile (\<lambda>c. c \<noteq> CHR '';'') rest
           in if length val = length rest then None
              else if val \<noteq> [] then Some (k + length val + 1, name, val)
              else if is_space (s ! (k - 1)) then Some (k + 1, name, [s ! (k - 1)])
              else None))"

text \<open>The loop over \<open>varRegex.exec (rootContent)\<close>: the definitions in the order of the text.\<close>

function var_decls :: "string \<Rightarrow> (string \<times> string) list" where
  "var_decls [] = []"
| "var_decls (c # cs) =
     (case var_decl (c # cs) of
        None \<Rightarrow> var_decls cs
      | Some (n, name, val) \<Rightarrow> (trim name, trim val) # var_decls (drop (n - 1) cs))"
  by pat_completeness auto
termination
  by (relation "measure length") auto

text \<open>
  The object \<open>variables\<close>: its keys in the order of their first assignment, each with
  the value assigned last, which is the order of \<open>Object.entries\<close>.
\<close>

definition variables_of :: "string \<Rightarrow> (string \<times> string) list" where
  "variables_of css =
     (case find_first root_block css of
        None \<Rightarrow> []
      | Some (n, rootContent) \<Rightarrow>
          foldl (\<lambda>vars (name, val). AList.update name val vars) [] (var_decls rootContent))"

text \<open>One turn of the substitution loop: \<open>var\(\s*NAME\s*\)\<close>, replaced by the value.\<close>

definition var_ref :: "string \<Rightarrow> atom list" where
  "var_ref name = lit ''var('' @ [Ws] @ lit name @ [Ws, Ch (CHR '')'')]"

definition subst_var :: "string \<times> string \<Rightarrow> string \<Rightarrow> string" where
  "subst_var nv processed =
     js_replace
       (\<lambda>whole off t. case pmatch (var_ref (fst nv)) t of
                   None \<Rightarrow> None
                 | Some n \<Rightarrow> Some (n, expand_repl (take n t) (take off whole) (drop n t) (snd nv)))
       processed"

definition subst_vars :: "(string \<times> string) list \<Rightarrow> string \<Rightarrow> string" where
  "subst_vars vars css = foldl (\<lambda>processed nv. subst_var nv processed) css vars"

text \<open>The synthesized \<open>.md-container\<close> rule; an empty value counts as undefined.\<close>

fun join :: "string \<Rightarrow> string list \<Rightarrow> string" where
  "join sep [] = []"
| "join sep [x] = x"
| "join sep (x # y # ys) = x @ sep @ join sep (y # ys)"

definition truthy :: "string option \<Rightarrow> bool" where
  "truthy v = (case v of None \<Rightarrow> False | Some t \<Rightarrow> t \<noteq> [])"

definition container_rule :: "(string \<times> string) list \<Rightarrow> string" where
  "container_rule vars =
     (let fontFamily = map_of vars ''--md-font-family'';
          fontSize = map_of vars ''--md-font-size''
      in if truthy fontFamily \<or> truthy fontSize
         then (let baseStyles =
                     (if truthy fontFamily then [''font-family: '' @ the fontFamily] else []) @
                     (if truthy fontSize then [''font-size: '' @ the fontSize] else []) @
                     [''line-height: 1.8'', ''color: hsl(0, 0%, 3.9%)'']
               in ''.md-container { '' @ join ''; '' baseStyles @ ''; }\<newline>'')
         else [])"

definition remove_root :: "string \<Rightarrow> string" where
  "remove_root s =
     js_replace (\<lambda>whole off t. map_option (\<lambda>(n, content). (n, [])) (root_block t)) s"

section \<open>The list-display patcher\<close>

text \<open>
  \<open>/li\s*\{[^}]*$/i\<close> tested on the at most 50 characters before a match of
  \<open>/display\s*:\s*block/gi\<close>.
\<close>

definition li_pat :: "atom list" where
  "li_pat = lit_ci ''li'' @ [Ws, Ch (CHR ''{'')]"

definition li_here :: "string \<Rightarrow> bool" where
  "li_here t =
     (case pmatch li_pat t of
        None \<Rightarrow> False
      | Some k \<Rightarrow> CHR ''}'' \<notin> set (drop k t))"

fun li_open :: "string \<Rightarrow> bool" where
  "li_open [] = False"
| "li_open (c # cs) = (li_here (c # cs) \<or> li_open cs)"

definition display_block :: "atom list" where
  "display_block = lit_ci ''display'' @ [Ws, Ch (CHR '':''), Ws] @ lit_ci ''block''"

definition patch_match :: matcher where
  "patch_match whole off t =
     (case pmatch display_block t of
        None \<Rightarrow> None
      | Some n \<Rightarrow>
          (let window = drop (off - 50) (take off whole)
           in Some (n, if li_open window then ''display: list-item'' else take n t)))"

definition list_patch :: "string \<Rightarrow> string" where
  "list_patch s = js_replace patch_match s"

section \<open>The special patterns and the final sweep\<close>

definition var_call :: "string \<Rightarrow> atom list" where
  "var_call name = lit_ci ''var'' @ [Ws, Ch (CHR ''('')] @ [Ws] @ lit_ci name @ [Ws, Ch (CHR '')'')]"

definition hsl_call :: "string \<Rightarrow> atom list" where
  "hsl_call name = lit_ci ''hsl'' @ [Ws, Ch (CHR ''(''), Ws] @ var_call name @ [Ws, Ch (CHR '')'')]"

definition hsl_foreground :: "atom list" where
  "hsl_foreground = hsl_call ''--foreground''"

definition hsl_background :: "atom list" where
  "hsl_background = hsl_call ''--background''"

definition var_blockquote :: "atom list" where
  "var_blockquote = var_call ''--blockquote-background''"

definition var_foreground :: "atom list" where
  "var_foreground = var_call ''--foreground''"

definition var_background :: "atom list" where
  "var_background = var_call ''--background''"

definition sweep_pat :: "atom list" where
  "sweep_pat = lit ''var(--'' @ [Name1, Ch (CHR '')'')]"

definition special_patterns :: "string \<Rightarrow> string" where
  "special_patterns s =
     replace_pat var_background ''0 0% 100%''
      (replace_pat var_foreground ''0 0% 3.9%''
        (replace_pat var_blockquote ''rgba(0,0,0,0.03)''
          (replace_pat hsl_background ''hsl(0, 0%, 100%)''
            (replace_pat hsl_foreground ''hsl(0, 0%, 3.9%)'' s))))"

definition sweep :: "string \<Rightarrow> string" where
  "sweep s = replace_pat sweep_pat ''inherit'' s"

text \<open>The text of \<open>processCSS\<close> before its last replacement, and \<open>processCSS\<close>.\<close>

definition before_sweep :: "string \<Rightarrow> string" where
  "before_sweep css =
     (let variables = variables_of css;
          processed = subst_vars variables css;
          processed = container_rule variables @ processed;
          processed = remove_root processed;
          processed = list_patch processed
      in special_patterns processed)"

definition processCSS :: "string \<Rightarrow> string" where
  "processCSS css = sweep (before_sweep css)"

text \<open>
  The stages of \<open>processCSS\<close> that follow the collection of the variables, for given
  variables; \<open>processCSS\<close> runs them with the variables of the style sheet itself.
\<close>

definition resolve_with :: "(string \<times> string) list \<Rightarrow> string \<Rightarrow> string" where
  "resolve_with variables sheet =
     sweep (special_patterns (list_patch (remove_root
       (container_rule variables @ subst_vars variables sheet))))"

text \<open>
  A text in which every \<open>var(--\<close> begins a reference of the form \<open>var(--name)\<close>, the
  only form the final sweep replaces.
\<close>

fun plain_refs :: "string \<Rightarrow> bool" where
  "plain_refs [] = True"
| "plain_refs (c # cs) =
     ((prefix ''var(--'' (c # cs) \<longrightarrow> pmatch sweep_pat (c # cs) \<noteq> None) \<and> plain_refs cs)"

text \<open>
  A text that contains the opening of a \<open>var\<close> reference: \<open>var\<close> in some letter case,
  optional white space and an opening parenthesis.
\<close>

definition var_open :: "atom list" where
  "var_open = lit_ci ''var'' @ [Ws, Ch (CHR ''('')]"

definition mentions_var :: "string \<Rightarrow> bool" where
  "mentions_var s = (find_first (pmatch var_open) s \<noteq> None)"

section \<open>The style sheets of the renderer\<close>

definition DEFAULT_THEME_CSS :: string where
  "DEFAULT_THEME_CSS =
     ''\<newline>'' @
     '':root {\<newline>'' @
     ''  --md-primary-color: #0F4C81;\<newline>'' @
     ''  --md-font-family: -apple-system-font, BlinkMacSystemFont, Helvetica Neue, PingFang SC, Hiragino Sans GB, Microsoft YaHei UI, Microsoft YaHei, Arial, sans-serif;\<newline>'' @
     ''  --md-font-size: 16px;\<newline>'' @
     ''}\<newline>'' @
     ''\<newline>'' @
     ''.md-container { font-family: var(--md-font-family); font-size: var(--md-font-size); line-height: 1.8; color: #333; }\<newline>'' @
     ''h1, h2, h3, h4, h5, h6 { font-weight: bold; color: inherit; margin: 1.5em 0 0.5em; }\<newline>'' @
     ''h1 { font-size: 1.6em; border-bottom: 2px solid var(--md-primary-color); display: table; margin: 2em auto 1em; padding: 0 1em; }\<newline>'' @
     ''h2 { font-size: 1.4em; background: var(--md-primary-color); color: #fff; display: table; margin: 2em auto 1em; padding: 0.2em 0.5em; }\<newline>'' @
     ''h3 { font-size: 1.2em; border-left: 3px solid var(--md-primary-color); padding-left: 8px; }\<newline>'' @
     ''p { margin: 1em 0; }\<newline>'' @
     ''blockquote { border-left: 4px solid var(--md-primary-color); padding: 1em; margin: 1em 0; background: rgba(0,0,0,0.03); }\<newline>'' @
     ''blockquote p { margin: 0; }\<newline>'' @
     ''code { background: rgba(27,31,35,0.05); padding: 2px 5px; border-radius: 3px; font-size: 90%; color: #d14; }\<newline>'' @
     ''pre { background: #f6f8fa; padding: 1em; border-radius: 6px; overflow-x: auto; line-height: 1.5; }\<newline>'' @
     ''pre code { background: none; padding: 0; color: inherit; }\<newline>'' @
     ''a { color: #576b95; text-decoration: none; }\<newline>'' @
     ''strong { color: var(--md-primary-color); font-weight: bold; }\<newline>'' @
     ''ul, ol { padding-left: 1.5em; margin: 1em 0; }\<newline>'' @
     ''li { margin: 0.3em 0; }\<newline>'' @
     ''table { border-collapse: collapse; width: 100%; margin: 1em 0; }\<newline>'' @
     ''th, td { border: 1px solid #ddd; padding: 8px; }\<newline>'' @
     ''th { background: #f6f8fa; font-weight: bold; }\<newline>'' @
     ''img { max-width: 100%; display: block; margin: 1em auto; border-radius: 4px; }\<newline>'' @
     ''hr { border: none; border-top: 2px solid #eee; margin: 2em 0; }\<newline>''"

definition BASE_WECHAT_CSS :: string where
  "BASE_WECHAT_CSS =
     ''\<newline>'' @
     ''/* Base styles for WeChat compatibility */\<newline>'' @
     ''\<newline>'' @
     ''/* List styles - ensure markers are visible */\<newline>'' @
     ''ul {\<newline>'' @
     ''  list-style-type: disc !important;\<newline>'' @
     ''  padding-left: 2em !important;\<newline>'' @
     ''  margin: 1em 0;\<newline>'' @
     ''}\<newline>'' @
     ''\<newline>'' @
     ''ol {\<newline>'' @
     ''  list-style-type: decimal !important;\<newline>'' @
     ''  padding-left: 2em !important;\<newline>'' @
     ''  margin: 1em 0;\<newline>'' @
     ''}\<newline>'' @
     ''\<newline>'' @
     ''li {\<newline>'' @
     ''  display: list-item !important;\<newline>'' @
     ''  margin: 0.3em 0;\<newline>'' @
     ''}\<newline>'' @
     ''\<newline>'' @
     ''/* Container base */\<newline>'' @
     ''.md-container {\<newline>'' @
     ''  line-height: 1.8;\<newline>'' @
     ''  color: #333;\<newline>'' @
     ''  word-wrap: break-word;\<newline>'' @
     ''  overflow-wrap: break-word;\<newline>'' @
     ''}\<newline>'' @
     ''\<newline>'' @
     ''/* Code block base */\<newline>'' @
     ''pre {\<newline>'' @
     ''  overflow-x: auto;\<newline>'' @
     ''  background: #f6f8fa;\<newline>'' @
     ''  border-radius: 6px;\<newline>'' @
     ''  margin: 1em 0;\<newline>'' @
     ''}\<newline>'' @
     ''\<newline>'' @
     ''pre code {\<newline>'' @
     ''  display: block;\<newline>'' @
     ''  padding: 1em;\<newline>'' @
     ''  white-space: pre-wrap;\<newline>'' @
     ''  word-break: break-all;\<newline>'' @
     ''}\<newline>'' @
     ''\<newline>'' @
     ''/* Table base */\<newline>'' @
     ''table {\<newline>'' @
     ''  border-collapse: collapse;\<newline>'' @
     ''  width: 100%;\<newline>'' @
     ''  margin: 1em 0;\<newline>'' @
     ''}\<newline>'' @
     ''\<newline>'' @
     ''th, td {\<newline>'' @
     ''  border: 1px solid #ddd;\<newline>'' @
     ''  padding: 8px;\<newline>'' @
     ''}\<newline>'' @
     ''\<newline>'' @
     ''th {\<newline>'' @
     ''  background: rgba(0, 0, 0, 0.05);\<newline>'' @
     ''}\<newline>'' @
     ''\<newline>'' @
     ''/* Image base */\<newline>'' @
     ''img {\<newline>'' @
     ''  max-width: 100%;\<newline>'' @
     ''  height: auto;\<newline>'' @
     ''}\<newline>'' @
     ''\<newline>'' @
     ''/* Link base */\<newline>'' @
     ''a {\<newline>'' @
     ''  color: #576b95;\<newline>'' @
     ''  text-decoration: none;\<newline>'' @
     ''}\<newline>'' @
     ''\<newline>'' @
     ''/* Blockquote base */\<newline>'' @
     ''blockquote {\<newline>'' @
     ''  margin: 1em 0;\<newline>'' @
     ''  padding: 1em;\<newline>'' @
     ''  border-left: 4px solid #ddd;\<newline>'' @
     ''  background: rgba(0, 0, 0, 0.03);\<newline>'' @
     ''}\<newline>'' @
     ''\<newline>'' @
     ''/* Horizontal rule */\<newline>'' @
     ''hr {\<newline>'' @
     ''  border: none;\<newline>'' @
     ''  border-top: 1px solid rgba(0, 0, 0, 0.1);\<newline>'' @
     ''  margin: 1.5em 0;\<newline>'' @
     ''}\<newline>''"

section \<open>The theme store\<close>

text \<open>
  The themes directory: \<open>metadata.json\<close>, as the object it parses to (\<open>None\<close> when the
  file is missing or unreadable), and the CSS files by file name.
\<close>

record ThemeMetadata =
  theme_id :: string
  theme_name :: string
  createdAt :: string
  updatedAt :: string

record store =
  dir_exists :: bool
  metadata_file :: "(string \<times> ThemeMetadata) list option"
  css_files :: "(string \<times> string) list"

text \<open>
  Reading a property of an object made by \<open>JSON.parse\<close>: an own property, or one
  inherited from \<open>Object.prototype\<close>, or \<open>undefined\<close>. Own values here are metadata
  objects, and the inherited ones are functions and objects, so both are truthy.
\<close>

datatype 'a property = Own 'a | Inherited | Undefined

definition object_prototype_keys :: "string list" where
  "object_prototype_keys =
     [''constructor'', ''hasOwnProperty'', ''isPrototypeOf'', ''propertyIsEnumerable'',
      ''toLocaleString'', ''toString'', ''valueOf'', ''__proto__'',
      ''__defineGetter__'', ''__defineSetter__'', ''__lookupGetter__'', ''__lookupSetter__'']"

definition js_get :: "(string \<times> 'a) list \<Rightarrow> string \<Rightarrow> 'a property" where
  "js_get obj k =
     (case map_of obj k of
        Some v \<Rightarrow> Own v
      | None \<Rightarrow> if k \<in> set object_prototype_keys then Inherited else Undefined)"

definition prop_truthy :: "'a property \<Rightarrow> bool" where
  "prop_truthy v = (v \<noteq> Undefined)"

definition loadMetadata :: "store \<Rightarrow> (string \<times> ThemeMetadata) list" where
  "loadMetadata st = (case metadata_file st of Some m \<Rightarrow> m | None \<Rightarrow> [])"

definition saveMetadata :: "(string \<times> ThemeMetadata) list \<Rightarrow> store \<Rightarrow> store" where
  "saveMetadata m st = st\<lparr> dir_exists := True, metadata_file := Some m \<rparr>"

definition css_name :: "string \<Rightarrow> string" where
  "css_name i = i @ ''.css''"

definition getTheme :: "store \<Rightarrow> string \<Rightarrow> (ThemeMetadata property \<times> string) option" where
  "getTheme st i =
     (let allMetadata = loadMetadata st; metadata = js_get allMetadata i
      in if \<not> prop_truthy metadata then None
         else (case map_of (css_files st) (css_name i) of
                 Some css \<Rightarrow> Some (metadata, css)
               | None \<Rightarrow> None))"

text \<open>\<open>fs.unlink\<close> fails on a missing file; \<open>deleteTheme\<close> ignores the failure.\<close>

definition deleteTheme :: "string \<Rightarrow> store \<Rightarrow> bool \<times> store" where
  "deleteTheme i st =
     (let allMetadata = loadMetadata st
      in if \<not> prop_truthy (js_get allMetadata i) then (False, st)
         else (let st1 = st\<lparr> css_files := AList.delete (css_name i) (css_files st) \<rparr>;
                   allMetadata = AList.delete i allMetadata
               in (True, saveMetadata allMetadata st1)))"

section \<open>The render entry point\<close>

datatype code_theme = Github | GithubDark | Vs | Vs2015 | AtomOneDark | AtomOneLight

record RenderOptions =
  citeStatus :: "bool option"
  countStatus :: "bool option"
  isMacCodeBlock :: "bool option"
  isShowLineNumber :: "bool option"
  legend :: "string option"
  codeTheme :: "code_theme option"

datatype format = Wechat | Html | HtmlPlain

record RenderResult =
  html :: string
  css :: "string option"
  readingTime :: reading_time

text \<open>
  The libraries the renderer calls and the texts of the code-highlight themes:
  \<open>marked.parse\<close> and \<open>juice\<close> may throw (\<open>None\<close>).
\<close>

record env =
  marked_parse :: "RenderOptions \<Rightarrow> string \<Rightarrow> string option"
  sanitize :: "string \<Rightarrow> string"
  juice :: "string \<Rightarrow> string option"
  github :: string
  githubDark :: string
  vs2015 :: string
  atomOneDark :: string

definition getCodeThemeCSS :: "env \<Rightarrow> code_theme \<Rightarrow> string" where
  "getCodeThemeCSS e themeName =
     (let found = (case themeName of
                     Github \<Rightarrow> Some (github e)
                   | GithubDark \<Rightarrow> Some (githubDark e)
                   | Vs2015 \<Rightarrow> Some (vs2015 e)
                   | AtomOneDark \<Rightarrow> Some (atomOneDark e)
                   | _ \<Rightarrow> None)
      in if truthy found then the found else githubDark e)"

text \<open>\<open>/<body>([\s\S]*)<\/body>/i\<close>: from the first \<open><body>\<close> to the last \<open></body>\<close>.\<close>

fun last_index :: "(string \<Rightarrow> bool) \<Rightarrow> string \<Rightarrow> nat option" where
  "last_index P [] = (if P [] then Some 0 else None)"
| "last_index P (c # cs) =
     (case last_index P cs of
        Some i \<Rightarrow> Some (Suc i)
      | None \<Rightarrow> if P (c # cs) then Some 0 else None)"

definition body_open :: "atom list" where
  "body_open = lit_ci ''<body>''"

definition body_close :: "atom list" where
  "body_close = lit_ci ''</body>''"

definition body_at :: "string \<Rightarrow> string option" where
  "body_at s =
     (case pmatch body_open s of
        None \<Rightarrow> None
      | Some k \<Rightarrow>
          map_option (\<lambda>i. take i (drop k s))
            (last_index (\<lambda>t. pmatch body_close t \<noteq> None) (drop k s)))"

definition style_tag :: "string \<Rightarrow> string" where
  "style_tag sheet = ''<style>'' @ sheet @ ''</style>''"

definition inlineCSS :: "env \<Rightarrow> string \<Rightarrow> string \<Rightarrow> string" where
  "inlineCSS e fragment sheet =
     (let fullHtml = ''<!DOCTYPE html><html><head>'' @ style_tag sheet @ ''</head><body>'' @
                     fragment @ ''</body></html>''
      in case juice e fullHtml of
           None \<Rightarrow> style_tag sheet @ ''\<newline>'' @ fragment
         | Some result \<Rightarrow>
             (case find_first body_at result of
                Some body \<Rightarrow> trim body
              | None \<Rightarrow> fragment))"

datatype render_error = MarkedError

definition container :: "string \<Rightarrow> string" where
  "container sanitizedHtml = ''<section class=\"md-container\">'' @ sanitizedHtml @ ''</section>''"

definition theme_css :: "store \<Rightarrow> string option \<Rightarrow> string" where
  "theme_css st themeId =
     (case themeId of
        None \<Rightarrow> DEFAULT_THEME_CSS
      | Some i \<Rightarrow>
          if i = [] then DEFAULT_THEME_CSS
          else (case getTheme st i of
                  Some theme \<Rightarrow> snd theme
                | None \<Rightarrow> DEFAULT_THEME_CSS))"

definition processed_css :: "env \<Rightarrow> store \<Rightarrow> string option \<Rightarrow> RenderOptions \<Rightarrow> string" where
  "processed_css e st themeId options =
     (let combinedCSS = BASE_WECHAT_CSS @ ''\<newline>'' @ theme_css st themeId;
          processedCSS = processCSS combinedCSS;
          codeThemeCSS = getCodeThemeCSS e
                           (case codeTheme options of Some t \<Rightarrow> t | None \<Rightarrow> GithubDark)
      in processedCSS @ ''\<newline>'' @ codeThemeCSS)"

definition render ::
  "env \<Rightarrow> store \<Rightarrow> string \<Rightarrow> string option \<Rightarrow> format option \<Rightarrow> RenderOptions
   \<Rightarrow> render_error + RenderResult" where
  "render e st markdown themeId fmt options =
     (case marked_parse e options markdown of
        None \<Rightarrow> Inl MarkedError
      | Some rawHtml \<Rightarrow>
          (let sanitizedHtml = sanitize e rawHtml;
               html0 = container sanitizedHtml;
               rt = calculateReadingTime markdown;
               processedCSS = processed_css e st themeId options
           in case (case fmt of None \<Rightarrow> Wechat | Some f \<Rightarrow> f) of
                HtmlPlain \<Rightarrow> Inr \<lparr> html = html0, css = Some processedCSS, readingTime = rt \<rparr>
              | Wechat \<Rightarrow> Inr \<lparr> html = inlineCSS e html0 processedCSS, css = None,
                                readingTime = rt \<rparr>
              | Html \<Rightarrow> Inr \<lparr> html = style_tag processedCSS @ ''\<newline>'' @ html0,
                              css = None, readingTime = rt \<rparr>))"

section \<open>Style elements and style attributes in HTML\<close>

text \<open>
  The number of positions of a text at which a pattern matches; the opening of a
  \<open>style\<close> element, \<open><style\<close> in either letter case; and a \<open>style\<close> attribute that
  is not empty, \<open>style="\<close> in either letter case and a name character.
\<close>

fun count_matches :: "atom list \<Rightarrow> string \<Rightarrow> nat" where
  "count_matches p [] = 0"
| "count_matches p (c # cs) = (if pmatch p (c # cs) = None then 0 else 1) + count_matches p cs"

definition style_open :: "atom list" where
  "style_open = lit_ci ''<style''"


definition style_blocks :: "string \<Rightarrow> nat" where
  "style_blocks s = count_matches style_open s"


section \<open>The HTTP layer\<close>

text \<open>
  A request: its method, the path of its URL without the query string, and the value of
  its \<open>X-API-Key\<close> header.
\<close>

datatype http_method = GET | HEAD | POST | PUT | DELETE | OPTIONS

record request =
  req_method :: http_method
  path :: string
  api_key :: "string option"

datatype response =
    Preflight
  | Unauthorized string
  | HealthOk
  | NotFound
  | Handled string

datatype middleware_result = Respond response | Next

definition authMiddleware :: "string set \<Rightarrow> request \<Rightarrow> middleware_result" where
  "authMiddleware validKeys req =
     (if \<not> truthy (api_key req)
      then Respond (Unauthorized ''Missing API key. Please provide X-API-Key header.'')
      else if validKeys = {} then Next
      else if the (api_key req) \<notin> validKeys then Respond (Unauthorized ''Invalid API key.'')
      else Next)"

text \<open>
  Express matches paths without regard to letter case. A middleware mounted on \<open>/api\<close>
  runs for the path \<open>/api\<close> and for every path that goes on with a slash; the route
  \<open>/api/health\<close> matches that path with or without a slash at its end.
\<close>

definition api_mount :: "atom list" where
  "api_mount = lit_ci ''/api''"

definition health_route :: "atom list" where
  "health_route = lit_ci ''/api/health''"

definition under_api :: "string \<Rightarrow> bool" where
  "under_api p =
     (case pmatch api_mount p of
        None \<Rightarrow> False
      | Some k \<Rightarrow> drop k p = [] \<or> hd (drop k p) = CHR ''/'')"

definition health_path :: "string \<Rightarrow> bool" where
  "health_path p =
     (case pmatch health_route p of
        None \<Rightarrow> False
      | Some k \<Rightarrow> drop k p = [] \<or> drop k p = ''/'')"

text \<open>
  The application, in the order of its \<open>app.use\<close> calls: \<open>cors ()\<close> with its default
  options answers every \<open>OPTIONS\<close> request itself; then the middleware mounted on \<open>/api\<close>
  runs, then the render and themes routers (a parameter: \<open>None\<close> when no route of theirs
  matches), then the health route, which as a \<open>get\<close> route also serves \<open>HEAD\<close>.
\<close>

definition app :: "string set \<Rightarrow> (request \<Rightarrow> response option) \<Rightarrow> request \<Rightarrow> response" where
  "app validKeys routers req =
     (if req_method req = OPTIONS then Preflight
      else
        (case (if under_api (path req) then authMiddleware validKeys req else Next) of
           Respond r \<Rightarrow> r
         | Next \<Rightarrow>
             (case routers req of
                Some r \<Rightarrow> r
              | None \<Rightarrow> if (req_method req = GET \<or> req_method req = HEAD) \<and> health_path (path req)
                        then HealthOk else NotFound)))"

section \<open>Notions for reasoning about patterns\<close>

text \<open>An item that has to consume a character.\<close>

fun consuming :: "atom \<Rightarrow> bool" where
  "consuming Ws = False"
| "consuming NameS = False"
| "consuming _ = True"

text \<open>The characters an item of a pattern can consume.\<close>

fun accepts :: "atom \<Rightarrow> char \<Rightarrow> bool" where
  "accepts (Ch c) x = (x = c)"
| "accepts (Ci l u) x = (x = l \<or> x = u)"
| "accepts Ws x = is_space x"
| "accepts Name1 x = is_name x"
| "accepts NameS x = is_name x"

text \<open>The states of a pattern after it has consumed at least one character.\<close>

fun residuals :: "atom list \<Rightarrow> atom list list" where
  "residuals [] = []"
| "residuals (Ws # p) = (Ws # p) # residuals p"
| "residuals (NameS # p) = (NameS # p) # residuals p"
| "residuals (Name1 # p) = (NameS # p) # residuals p"
| "residuals (a # p) = (if p = [] then [] else [p]) @ residuals p"

text \<open>A pattern whose last item is a literal character.\<close>

fun lit_end :: "atom list \<Rightarrow> bool" where
  "lit_end [] = False"
| "lit_end [a] = (case a of Ch c \<Rightarrow> True | Ci l u \<Rightarrow> True | _ \<Rightarrow> False)"
| "lit_end (a # p) = lit_end p"

text \<open>A pattern whose matches contain the opening of a \<open>var\<close> reference.\<close>

definition has_var :: "atom list \<Rightarrow> bool" where
  "has_var p = (\<forall>s n. pmatch p s = Some n \<longrightarrow>
                 (\<exists>j\<le>length s. pmatch var_open (drop j s) \<noteq> None))"




text \<open>
  Variables other than \<open>--blockquote-background\<close>, with names over \<open>[\w-]\<close> and values
  without \<open>$\<close> and without an opening brace.
\<close>

definition other_plain_vars :: "(string \<times> string) list \<Rightarrow> bool" where
  "other_plain_vars vars =
     (\<forall>nv\<in>set vars. (\<forall>c\<in>set (fst nv). is_name c) \<and> fst nv \<noteq> ''--blockquote-background''
        \<and> CHR ''$'' \<notin> set (snd nv) \<and> CHR ''{'' \<notin> set (snd nv))"

section \<open>Example environments\<close>

text \<open>
  Stand-ins for the libraries, for concrete runs: a Markdown parser and a sanitizer that
  return their input, and an inliner that always throws.
\<close>

definition no_options :: RenderOptions where
  "no_options = \<lparr> citeStatus = None, countStatus = None, isMacCodeBlock = None,
                   isShowLineNumber = None, legend = None, codeTheme = None \<rparr>"

definition failing_juice_env :: env where
  "failing_juice_env =
     \<lparr> marked_parse = (\<lambda>options md. Some md), sanitize = (\<lambda>h. h), juice = (\<lambda>doc. None),
       github = ''.hljs{color:#24292e}'', githubDark = ''.hljs{color:#c9d1d9}'',
       vs2015 = ''.hljs{color:#DCDCDC}'', atomOneDark = ''.hljs{color:#abb2bf}'' \<rparr>"

definition one_theme_store :: store where
  "one_theme_store =
     \<lparr> dir_exists = True,
       metadata_file = Some [(''theme_a'', \<lparr> theme_id = ''theme_a'', theme_name = ''A'',
                               createdAt = ''2026-01-30T10:00:00.000Z'',
                               updatedAt = ''2026-01-30T10:00:00.000Z'' \<rparr>)],
       css_files = [(''theme_a.css'', ''p { color: red; }'')] \<rparr>"



section \<open>Properties\<close>

subsection \<open>Reading time\<close>

lemma word_count_dropWhile: "word_count (dropWhile is_space s) = word_count s"
  by (induction s) auto

lemma word_count_snoc_space: "is_space c \<Longrightarrow> word_count (s @ [c]) = word_count s"
  by (induction s rule: word_count.induct) (auto split: list.splits)

lemma word_count_rev_dropWhile: "word_count (rev (dropWhile is_space (rev s))) = word_count s"
  by (induction s rule: rev_induct) (auto simp: word_count_snoc_space)

lemma word_count_trim: "word_count (trim s) = word_count s"
  by (simp add: trim_def word_count_rev_dropWhile word_count_dropWhile)

lemma dropWhile_last: "dropWhile P xs \<noteq> [] \<Longrightarrow> last (dropWhile P xs) = last xs"
  by (induction xs) (auto split: if_splits)

lemma split_ws_count:
  "s \<noteq> [] \<Longrightarrow> \<not> is_space (last s) \<Longrightarrow>
   length (split_ws cur s) = (if is_space (hd s) then Suc (word_count s) else word_count s)"
proof (induction cur s rule: split_ws.induct)
  case (1 cur)
  then show ?case by simp
next
  case (2 cur c cs)
  show ?case
  proof (cases "is_space c")
    case True
    let ?r = "dropWhile is_space cs"
    from True 2(4) have "cs \<noteq> []" by auto
    with 2(4) have lc: "\<not> is_space (last cs)" by simp
    then have ne: "?r \<noteq> []" using \<open>cs \<noteq> []\<close>
      by (auto simp: dropWhile_eq_Nil_conv)
    have l: "last ?r = last cs" using ne by (rule dropWhile_last)
    have h: "\<not> is_space (hd ?r)" using ne hd_dropWhile by blast
    from 2(1)[OF True ne] l lc h have "length (split_ws [] ?r) = word_count ?r" by simp
    then show ?thesis using True by (simp add: word_count_dropWhile)
  next
    case False
    show ?thesis
    proof (cases cs)
      case Nil
      then show ?thesis using False by simp
    next
      case (Cons d ds)
      then have "length (split_ws (cur @ [c]) cs) =
                 (if is_space (hd cs) then Suc (word_count cs) else word_count cs)"
        using 2(2)[OF False] 2(4) by simp
      then show ?thesis using False Cons by simp
    qed
  qed
qed

lemma trim_props:
  assumes "\<exists>c\<in>set s. \<not> is_space c"
  shows "trim s \<noteq> []" "\<not> is_space (last (trim s))" "\<not> is_space (hd (trim s))"
proof -
  let ?d = "dropWhile is_space s"
  from assms have d: "?d \<noteq> []" by (simp add: dropWhile_eq_Nil_conv)
  have hd: "\<not> is_space (hd ?d)" using d hd_dropWhile by blast
  then have ex: "\<exists>c\<in>set (rev ?d). \<not> is_space c" using d by (metis hd_in_set set_rev)
  let ?e = "dropWhile is_space (rev ?d)"
  from ex have e: "?e \<noteq> []" by (simp add: dropWhile_eq_Nil_conv)
  show "trim s \<noteq> []" using e by (simp add: trim_def)
  show "\<not> is_space (last (trim s))"
    using e hd_dropWhile[of is_space "rev ?d"] by (simp add: trim_def last_rev)
  have "last ?e = last (rev ?d)" using e by (rule dropWhile_last)
  then show "\<not> is_space (hd (trim s))" using e d hd by (simp add: trim_def hd_rev last_rev)
qed

lemma words_word_count:
  assumes "\<exists>c\<in>set s. \<not> is_space c"
  shows "words (calculateReadingTime s) = word_count s"
  using trim_props[OF assms] split_ws_count[of "trim s" "[]"]
  by (simp add: calculateReadingTime_def word_count_trim Let_def)

lemma ceil_div_200:
  fixes w :: nat
  shows "w \<le> 200 * ((w + 199) div 200) \<and> 200 * ((w + 199) div 200) < w + 200"
proof -
  have a: "(w + 199) div 200 * 200 + (w + 199) mod 200 = w + 199"
    by (rule div_mult_mod_eq)
  have b: "(w + 199) mod 200 < 200" by simp
  from a b show ?thesis by linarith
qed

lemma blank_reading_time:
  "calculateReadingTime '' '' = \<lparr> chars = 1, words = 1, minutes = 1 \<rparr> \<and> word_count '' '' = 0"
  by (simp add: calculateReadingTime_def trim_def is_space_def wordsPerMinute_def)

text \<open>
  C7, as the code has it. For a text with at least one character that is not white space,
  \<open>chars\<close> is the length of the text, \<open>words\<close> is the number of its white-space-delimited
  words and \<open>minutes\<close> is \<open>words / 200\<close> rounded up: the least number with
  \<open>words \<le> 200 * minutes\<close>.
\<close>

theorem reading_time_nonblank:
  assumes "\<exists>c\<in>set s. \<not> is_space c"
  shows "chars (calculateReadingTime s) = length s
       \<and> words (calculateReadingTime s) = word_count s
       \<and> words (calculateReadingTime s) \<le> 200 * minutes (calculateReadingTime s)
       \<and> 200 * minutes (calculateReadingTime s) < words (calculateReadingTime s) + 200"
proof -
  have "chars (calculateReadingTime s) = length s"
    by (simp add: calculateReadingTime_def Let_def)
  moreover have "minutes (calculateReadingTime s) = (words (calculateReadingTime s) + 199) div 200"
    by (simp add: calculateReadingTime_def Let_def wordsPerMinute_def)
  ultimately show ?thesis
    using words_word_count[OF assms] ceil_div_200[of "word_count s"] by simp
qed

theorem reading_time_nonblank_witness:
  "(\<exists>c\<in>set ''# Hello\<newline>**World**''. \<not> is_space c)
   \<and> chars (calculateReadingTime ''# Hello\<newline>**World**'') = 17
   \<and> words (calculateReadingTime ''# Hello\<newline>**World**'') = 3
   \<and> minutes (calculateReadingTime ''# Hello\<newline>**World**'') = 1"
proof -
  have h: "\<exists>c\<in>set ''# Hello\<newline>**World**''. \<not> is_space c"
    by (simp add: is_space_def)
  have w: "word_count ''# Hello\<newline>**World**'' = 3"
    by (simp add: is_space_def)
  from reading_time_nonblank[OF h] w show ?thesis using h by simp
qed

text \<open>
  C7, as stated, at its own example: the text \<open># Hello\<close>, line break, \<open>**World**\<close> has the
  three words \<open>#\<close>, \<open>Hello\<close> and \<open>**World**\<close>, not two.
\<close>

theorem reading_time_example_counterexample:
  "words (calculateReadingTime ''# Hello\<newline>**World**'') \<noteq> 2"
  by (simp add: calculateReadingTime_def trim_def is_space_def)

subsection \<open>API-key authentication\<close>

lemma api_mount_nf [code]:
  "api_mount = [Ci (CHR ''/'') (CHR ''/''), Ci (CHR ''a'') (CHR ''A''), Ci (CHR ''p'') (CHR ''P''),
                Ci (CHR ''i'') (CHR ''I'')]"
  by code_simp

lemma health_route_nf [code]:
  "health_route = [Ci (CHR ''/'') (CHR ''/''), Ci (CHR ''a'') (CHR ''A''), Ci (CHR ''p'') (CHR ''P''),
                   Ci (CHR ''i'') (CHR ''I''), Ci (CHR ''/'') (CHR ''/''), Ci (CHR ''h'') (CHR ''H''),
                   Ci (CHR ''e'') (CHR ''E''), Ci (CHR ''a'') (CHR ''A''), Ci (CHR ''l'') (CHR ''L''),
                   Ci (CHR ''t'') (CHR ''T''), Ci (CHR ''h'') (CHR ''H'')]"
  by code_simp

lemma auth_missing_key:
  "under_api (path req) \<Longrightarrow> api_key req = None \<Longrightarrow> req_method req \<noteq> OPTIONS \<Longrightarrow>
   app validKeys routers req = Unauthorized ''Missing API key. Please provide X-API-Key header.''"
  by (simp add: app_def authMiddleware_def truthy_def)

lemma auth_no_keys_configured:
  "truthy (api_key req) \<Longrightarrow> authMiddleware {} req = Next"
  by (simp add: authMiddleware_def)

lemma health_with_key:
  "app {} (\<lambda>req. None) \<lparr> req_method = GET, path = ''/api/health'', api_key = Some ''k'' \<rparr> = HealthOk"
  by (simp add: app_def authMiddleware_def truthy_def under_api_def health_path_def
      api_mount_nf health_route_nf)

lemma preflight_without_key:
  "app validKeys routers \<lparr> req_method = OPTIONS, path = ''/api/render'', api_key = None \<rparr> = Preflight"
  by (simp add: app_def)

text \<open>
  C9 at \<open>GET /api/health\<close> without an \<open>X-API-Key\<close> header: the middleware mounted on
  \<open>/api\<close> answers 401 before the health route is reached, whatever the configured keys.
\<close>

theorem health_without_key_unauthorized:
  "app validKeys routers \<lparr> req_method = GET, path = ''/api/health'', api_key = None \<rparr>
   = Unauthorized ''Missing API key. Please provide X-API-Key header.''"
  by (simp add: app_def authMiddleware_def truthy_def under_api_def api_mount_nf)

subsection \<open>The theme store\<close>

lemma deleteTheme_undefined:
  "js_get (loadMetadata st) i = Undefined \<Longrightarrow> deleteTheme i st = (False, st)"
  by (simp add: deleteTheme_def prop_truthy_def Let_def)

lemma deleteTheme_own:
  assumes "map_of (loadMetadata st) i = Some md"
  shows "fst (deleteTheme i st) = True"
    and "map_of (loadMetadata (snd (deleteTheme i st))) = (map_of (loadMetadata st))(i := None)"
    and "map_of (css_files (snd (deleteTheme i st)))
         = (map_of (css_files st))(css_name i := None)"
  using assms
  by (simp_all add: deleteTheme_def prop_truthy_def js_get_def Let_def saveMetadata_def
      loadMetadata_def delete_conv')

text \<open>
  C10 at the id \<open>constructor\<close> on an empty themes directory: the id is not in the
  metadata, yet \<open>allMetadata[id]\<close> is the inherited \<open>Object.prototype.constructor\<close>, so
  \<open>deleteTheme\<close> returns \<open>true\<close> and writes the metadata file.
\<close>

theorem deleteTheme_inherited_key:
  "deleteTheme ''constructor'' \<lparr> dir_exists = False, metadata_file = None, css_files = [] \<rparr>
   = (True, \<lparr> dir_exists = True, metadata_file = Some [], css_files = [] \<rparr>)"
  by (simp add: deleteTheme_def loadMetadata_def js_get_def prop_truthy_def
      object_prototype_keys_def saveMetadata_def Let_def)

lemma getTheme_absent:
  "map_of (loadMetadata st) i = None \<Longrightarrow> map_of (css_files st) (css_name i) = None \<Longrightarrow>
   getTheme st i = None"
  by (simp add: getTheme_def Let_def)

lemma render_theme_not_found:
  assumes "getTheme st i = None"
  shows "render e st markdown (Some i) fmt options = render e st markdown None fmt options"
proof -
  have "theme_css st (Some i) = theme_css st None"
    using assms by (simp add: theme_css_def)
  then have h: "processed_css e st (Some i) options = processed_css e st None options"
    by (simp add: processed_css_def)
  show ?thesis by (simp only: render_def h)
qed

text \<open>
  C8. A \<open>themeId\<close> that is not in the theme store (no entry in the metadata and no CSS
  file of that id) renders exactly as no \<open>themeId\<close> does.
\<close>

theorem render_unknown_theme:
  assumes "map_of (loadMetadata st) i = None"
      and "map_of (css_files st) (css_name i) = None"
  shows "render e st markdown (Some i) fmt options = render e st markdown None fmt options"
proof -
  have "theme_css st (Some i) = theme_css st None"
    using getTheme_absent[OF assms] by (simp add: theme_css_def)
  then have h: "processed_css e st (Some i) options = processed_css e st None options"
    by (simp add: processed_css_def)
  show ?thesis by (simp only: render_def h)
qed

theorem render_unknown_theme_witness:
  "map_of (loadMetadata one_theme_store) ''theme_b'' = None
   \<and> map_of (css_files one_theme_store) (css_name ''theme_b'') = None
   \<and> render failing_juice_env one_theme_store ''# Hi'' (Some ''theme_b'') (Some Html) no_options
     = render failing_juice_env one_theme_store ''# Hi'' None (Some Html) no_options"
proof -
  have a: "map_of (loadMetadata one_theme_store) ''theme_b'' = None"
    by (simp add: loadMetadata_def one_theme_store_def)
  have b: "map_of (css_files one_theme_store) (css_name ''theme_b'') = None"
    by (simp add: css_name_def one_theme_store_def)
  from render_unknown_theme[OF a b] a b show ?thesis by simp
qed

subsection \<open>The inliner\<close>

lemma inlineCSS_fallback:
  assumes "juice e (''<!DOCTYPE html><html><head><style>'' @ sheet @
                    ''</style></head><body>'' @ fragment @ ''</body></html>'') = None"
  shows "inlineCSS e fragment sheet = ''<style>'' @ sheet @ ''</style>\<newline>'' @ fragment"
  using assms by (simp add: inlineCSS_def style_tag_def)

text \<open>
  C3. When \<open>juice\<close> throws on the document built from the fragment and the style sheet,
  \<open>inlineCSS\<close> returns the fragment with the whole style sheet in a \<open><style>\<close> tag before
  it, and \<open>render\<close> in the \<open>wechat\<close> format (also when the format is omitted) returns
  a result with that text as its \<open>html\<close> rather than an error.
\<close>

theorem inliner_fallback:
  assumes "marked_parse e options markdown = Some rawHtml"
      and "juice e (''<!DOCTYPE html><html><head><style>'' @
                    processed_css e st themeId options @
                    ''</style></head><body>'' @ container (sanitize e rawHtml) @
                    ''</body></html>'') = None"
      and "fmt = None \<or> fmt = Some Wechat"
  shows "inlineCSS e (container (sanitize e rawHtml)) (processed_css e st themeId options)
         = ''<style>'' @ processed_css e st themeId options @ ''</style>\<newline>'' @
           container (sanitize e rawHtml)
       \<and> render e st markdown themeId fmt options
         = Inr \<lparr> html = ''<style>'' @ processed_css e st themeId options @ ''</style>\<newline>'' @
                        container (sanitize e rawHtml),
                 css = None, readingTime = calculateReadingTime markdown \<rparr>"
proof -
  have f: "inlineCSS e (container (sanitize e rawHtml)) (processed_css e st themeId options)
           = ''<style>'' @ processed_css e st themeId options @ ''</style>\<newline>'' @
             container (sanitize e rawHtml)"
    using assms(2) by (rule inlineCSS_fallback)
  from assms(3) have "(case fmt of None \<Rightarrow> Wechat | Some f \<Rightarrow> f) = Wechat" by auto
  then have "render e st markdown themeId fmt options
             = Inr \<lparr> html = inlineCSS e (container (sanitize e rawHtml))
                                (processed_css e st themeId options),
                     css = None, readingTime = calculateReadingTime markdown \<rparr>"
    using assms(1) by (simp add: render_def Let_def)
  with f show ?thesis by simp
qed

theorem inliner_fallback_witness:
  "marked_parse failing_juice_env no_options ''# Hi'' = Some ''# Hi''
   \<and> juice failing_juice_env (''<!DOCTYPE html><html><head><style>'' @
         processed_css failing_juice_env one_theme_store None no_options @
         ''</style></head><body>'' @ container (sanitize failing_juice_env ''# Hi'') @
         ''</body></html>'') = None
   \<and> render failing_juice_env one_theme_store ''# Hi'' None None no_options
     = Inr \<lparr> html = ''<style>'' @ processed_css failing_juice_env one_theme_store None no_options @
                    ''</style>\<newline>'' @ container (sanitize failing_juice_env ''# Hi''),
             css = None, readingTime = calculateReadingTime ''# Hi'' \<rparr>"
proof -
  have a: "marked_parse failing_juice_env no_options ''# Hi'' = Some ''# Hi''"
    by (simp add: failing_juice_env_def)
  have b: "juice failing_juice_env (''<!DOCTYPE html><html><head><style>'' @
         processed_css failing_juice_env one_theme_store None no_options @
         ''</style></head><body>'' @ container (sanitize failing_juice_env ''# Hi'') @
         ''</body></html>'') = None"
    by (simp add: failing_juice_env_def)
  have c: "(None :: format option) = None \<or> None = Some Wechat" by simp
  from inliner_fallback[OF a b c] a b show ?thesis by blast
qed

subsection \<open>Patterns in normal form\<close>

text \<open>The patterns written out, as code equations for evaluation.\<close>

lemma root_pat_nf [code]:
  "root_pat =
    [Ci CHR '':'' CHR '':'', Ci CHR ''r'' CHR ''R'', Ci CHR ''o'' CHR ''O'',
     Ci CHR ''o'' CHR ''O'', Ci CHR ''t'' CHR ''T'', Ws, Ch CHR ''{'']"
  by code_simp

lemma li_pat_nf [code]:
  "li_pat =
    [Ci CHR ''l'' CHR ''L'', Ci CHR ''i'' CHR ''I'', Ws, Ch CHR ''{'']"
  by code_simp

lemma display_block_nf [code]:
  "display_block =
    [Ci CHR ''d'' CHR ''D'', Ci CHR ''i'' CHR ''I'', Ci CHR ''s'' CHR ''S'',
     Ci CHR ''p'' CHR ''P'', Ci CHR ''l'' CHR ''L'', Ci CHR ''a'' CHR ''A'',
     Ci CHR ''y'' CHR ''Y'', Ws, Ch CHR '':'', Ws, Ci CHR ''b'' CHR ''B'',
     Ci CHR ''l'' CHR ''L'', Ci CHR ''o'' CHR ''O'', Ci CHR ''c'' CHR ''C'',
     Ci CHR ''k'' CHR ''K'']"
  by code_simp

lemma hsl_foreground_nf [code]:
  "hsl_foreground =
    [Ci CHR ''h'' CHR ''H'', Ci CHR ''s'' CHR ''S'', Ci CHR ''l'' CHR ''L'', Ws, Ch CHR ''('',
     Ws, Ci CHR ''v'' CHR ''V'', Ci CHR ''a'' CHR ''A'', Ci CHR ''r'' CHR ''R'', Ws,
     Ch CHR ''('', Ws, Ci CHR ''-'' CHR ''-'', Ci CHR ''-'' CHR ''-'', Ci CHR ''f'' CHR ''F'',
     Ci CHR ''o'' CHR ''O'', Ci CHR ''r'' CHR ''R'', Ci CHR ''e'' CHR ''E'',
     Ci CHR ''g'' CHR ''G'', Ci CHR ''r'' CHR ''R'', Ci CHR ''o'' CHR ''O'',
     Ci CHR ''u'' CHR ''U'', Ci CHR ''n'' CHR ''N'', Ci CHR ''d'' CHR ''D'', Ws, Ch CHR '')'',
     Ws, Ch CHR '')'']"
  by code_simp

lemma hsl_background_nf [code]:
  "hsl_background =
    [Ci CHR ''h'' CHR ''H'', Ci CHR ''s'' CHR ''S'', Ci CHR ''l'' CHR ''L'', Ws, Ch CHR ''('',
     Ws, Ci CHR ''v'' CHR ''V'', Ci CHR ''a'' CHR ''A'', Ci CHR ''r'' CHR ''R'', Ws,
     Ch CHR ''('', Ws, Ci CHR ''-'' CHR ''-'', Ci CHR ''-'' CHR ''-'', Ci CHR ''b'' CHR ''B'',
     Ci CHR ''a'' CHR ''A'', Ci CHR ''c'' CHR ''C'', Ci CHR ''k'' CHR ''K'',
     Ci CHR ''g'' CHR ''G'', Ci CHR ''r'' CHR ''R'', Ci CHR ''o'' CHR ''O'',
     Ci CHR ''u'' CHR ''U'', Ci CHR ''n'' CHR ''N'', Ci CHR ''d'' CHR ''D'', Ws, Ch CHR '')'',
     Ws, Ch CHR '')'']"
  by code_simp

lemma var_blockquote_nf [code]:
  "var_blockquote =
    [Ci CHR ''v'' CHR ''V'', Ci CHR ''a'' CHR ''A'', Ci CHR ''r'' CHR ''R'', Ws, Ch CHR ''('',
     Ws, Ci CHR ''-'' CHR ''-'', Ci CHR ''-'' CHR ''-'', Ci CHR ''b'' CHR ''B'',
     Ci CHR ''l'' CHR ''L'', Ci CHR ''o'' CHR ''O'', Ci CHR ''c'' CHR ''C'',
     Ci CHR ''k'' CHR ''K'', Ci CHR ''q'' CHR ''Q'', Ci CHR ''u'' CHR ''U'',
     Ci CHR ''o'' CHR ''O'', Ci CHR ''t'' CHR ''T'', Ci CHR ''e'' CHR ''E'',
     Ci CHR ''-'' CHR ''-'', Ci CHR ''b'' CHR ''B'', Ci CHR ''a'' CHR ''A'',
     Ci CHR ''c'' CHR ''C'', Ci CHR ''k'' CHR ''K'', Ci CHR ''g'' CHR ''G'',
     Ci CHR ''r'' CHR ''R'', Ci CHR ''o'' CHR ''O'', Ci CHR ''u'' CHR ''U'',
     Ci CHR ''n'' CHR ''N'', Ci CHR ''d'' CHR ''D'', Ws, Ch CHR '')'']"
  by code_simp

lemma var_foreground_nf [code]:
  "var_foreground =
    [Ci CHR ''v'' CHR ''V'', Ci CHR ''a'' CHR ''A'', Ci CHR ''r'' CHR ''R'', Ws, Ch CHR ''('',
     Ws, Ci CHR ''-'' CHR ''-'', Ci CHR ''-'' CHR ''-'', Ci CHR ''f'' CHR ''F'',
     Ci CHR ''o'' CHR ''O'', Ci CHR ''r'' CHR ''R'', Ci CHR ''e'' CHR ''E'',
     Ci CHR ''g'' CHR ''G'', Ci CHR ''r'' CHR ''R'', Ci CHR ''o'' CHR ''O'',
     Ci CHR ''u'' CHR ''U'', Ci CHR ''n'' CHR ''N'', Ci CHR ''d'' CHR ''D'', Ws, Ch CHR '')'']"
  by code_simp

lemma var_background_nf [code]:
  "var_background =
    [Ci CHR ''v'' CHR ''V'', Ci CHR ''a'' CHR ''A'', Ci CHR ''r'' CHR ''R'', Ws, Ch CHR ''('',
     Ws, Ci CHR ''-'' CHR ''-'', Ci CHR ''-'' CHR ''-'', Ci CHR ''b'' CHR ''B'',
     Ci CHR ''a'' CHR ''A'', Ci CHR ''c'' CHR ''C'', Ci CHR ''k'' CHR ''K'',
     Ci CHR ''g'' CHR ''G'', Ci CHR ''r'' CHR ''R'', Ci CHR ''o'' CHR ''O'',
     Ci CHR ''u'' CHR ''U'', Ci CHR ''n'' CHR ''N'', Ci CHR ''d'' CHR ''D'', Ws, Ch CHR '')'']"
  by code_simp

lemma sweep_pat_nf [code]:
  "sweep_pat =
    [Ch CHR ''v'', Ch CHR ''a'', Ch CHR ''r'', Ch CHR ''('', Ch CHR ''-'', Ch CHR ''-'', Name1,
     Ch CHR '')'']"
  by code_simp



lemma style_open_nf [code]:
  "style_open =
    [Ci CHR ''<'' CHR ''<'', Ci CHR ''s'' CHR ''S'', Ci CHR ''t'' CHR ''T'',
     Ci CHR ''y'' CHR ''Y'', Ci CHR ''l'' CHR ''L'', Ci CHR ''e'' CHR ''E'']"
  by code_simp


lemmas pats_nf = root_pat_nf li_pat_nf display_block_nf hsl_foreground_nf hsl_background_nf
  var_blockquote_nf var_foreground_nf var_background_nf sweep_pat_nf

subsection \<open>The final sweep\<close>

lemma plain_refs_drop: "plain_refs s \<Longrightarrow> plain_refs (drop k s)"
proof (induction s arbitrary: k)
  case Nil
  then show ?case by simp
next
  case (Cons c cs)
  then show ?case by (cases k) auto
qed

text \<open>The sweep writes \<open>inherit\<close>, so a text without \<open>i\<close> at the start of its output was there before.\<close>

lemma sweep_prefix_kept:
  "prefix q (replace_all (pat_matcher sweep_pat ''inherit'') whole off s) \<Longrightarrow>
   CHR ''i'' \<notin> set q \<Longrightarrow> prefix q s"
proof (induction q arbitrary: s whole off)
  case Nil
  then show ?case by simp
next
  case (Cons x q)
  show ?case
  proof (cases s)
    case Nil
    with Cons.prems show ?thesis by simp
  next
    case (Cons c cs)
    show ?thesis
    proof (cases "pmatch sweep_pat (c # cs)")
      case None
      then have "replace_all (pat_matcher sweep_pat ''inherit'') whole off s
                 = c # replace_all (pat_matcher sweep_pat ''inherit'') whole (Suc off) cs"
        using Cons by (simp add: pat_matcher_def)
      with Cons.prems Cons.IH[of whole "Suc off" cs] Cons show ?thesis by simp
    next
      case (Some n)
      then have "replace_all (pat_matcher sweep_pat ''inherit'') whole off s
                 = ''inherit'' @ replace_all (pat_matcher sweep_pat ''inherit'') whole
                                  (Suc off + (n - 1)) (drop (n - 1) cs)"
        using Cons by (simp add: pat_matcher_def)
      with Cons.prems show ?thesis by simp
    qed
  qed
qed

lemma sweep_clean:
  "plain_refs s \<Longrightarrow>
   \<not> contains ''var(--'' (replace_all (pat_matcher sweep_pat ''inherit'') whole off s)"
proof (induction "pat_matcher sweep_pat ''inherit''" whole off s rule: replace_all.induct)
  case (1 whole off)
  then show ?case by simp
next
  case (2 whole off c cs)
  let ?m = "pat_matcher sweep_pat ''inherit''"
  show ?case
  proof (cases "pmatch sweep_pat (c # cs)")
    case None
    then have m: "?m whole off (c # cs) = None" by (simp add: pat_matcher_def)
    have r: "replace_all ?m whole off (c # cs) = c # replace_all ?m whole (Suc off) cs"
      using m by simp
    from 2(3) have pr: "plain_refs cs" by simp
    from 2(1)[OF m pr] have ih: "\<not> contains ''var(--'' (replace_all ?m whole (Suc off) cs)" .
    have np: "\<not> prefix ''var(--'' (c # cs)" using 2(3) None by auto
    have "\<not> prefix ''var(--'' (c # replace_all ?m whole (Suc off) cs)"
    proof
      assume "prefix ''var(--'' (c # replace_all ?m whole (Suc off) cs)"
      then have c: "c = CHR ''v''" and "prefix ''ar(--'' (replace_all ?m whole (Suc off) cs)"
        by simp_all
      then have "prefix ''ar(--'' cs" using sweep_prefix_kept[of "''ar(--''"] by simp
      with c np show False by simp
    qed
    with ih r show ?thesis by simp
  next
    case (Some n)
    then have m: "?m whole off (c # cs) = Some (n, ''inherit'')" by (simp add: pat_matcher_def)
    have r: "replace_all ?m whole off (c # cs)
             = ''inherit'' @ replace_all ?m whole (Suc off + (n - 1)) (drop (n - 1) cs)"
      using m by simp
    from 2(3) have "plain_refs cs" by simp
    then have pr: "plain_refs (drop (n - 1) cs)" by (rule plain_refs_drop)
    from 2(2)[OF m refl pr]
    have ih: "\<not> contains ''var(--'' (replace_all ?m whole (Suc off + (n - 1)) (drop (n - 1) cs))" .
    show ?thesis unfolding r using ih by simp
  qed
qed

text \<open>
  The sweep replaces the references of the form \<open>var(--name)\<close>: when every \<open>var(--\<close>
  in the text before the sweep begins such a reference, none is left.
\<close>

lemma sweep_removes_plain_refs:
  "plain_refs (before_sweep sheet) \<Longrightarrow> \<not> contains ''var(--'' (processCSS sheet)"
  by (simp add: processCSS_def sweep_def replace_pat_def js_replace_def sweep_clean)

text \<open>
  The substitution of a defined variable allows white space inside the parentheses, and an
  undefined reference written without white space becomes \<open>inherit\<close>.
\<close>

lemma defined_reference_with_space:
  "processCSS '':root{--x:red;}p{color:var(--x )}'' = ''p{color:red}''"
  by code_simp

lemma undefined_reference_inherit:
  "processCSS ''p{color:var(--x)}'' = ''p{color:inherit}''"
  by code_simp

text \<open>
  C1 at the style sheet \<open>p{color:var(--x )}\<close>, where \<open>--x\<close> is not defined: the pattern of
  the final sweep, unlike the pattern of the substitution, allows no white space before the
  closing parenthesis, so the reference is not replaced by \<open>inherit\<close> and the output of
  \<open>processCSS\<close> contains \<open>var(--\<close>.
\<close>

theorem leaked_reference_with_space:
  "processCSS ''p{color:var(--x )}'' = ''p{color:var(--x )}''
   \<and> contains ''var(--'' (processCSS ''p{color:var(--x )}'')"
  by code_simp

text \<open>A reference with a fallback value is not matched by the sweep either.\<close>

lemma processCSS_fallback_unchanged:
  "processCSS ''a { color: var(--x, red); }'' = ''a { color: var(--x, red); }''"
  by code_simp

lemma sweep_can_build_a_reference:
  "processCSS ''var(--var(--b))'' = ''var(--inherit)''"
  by code_simp

subsection \<open>Pattern matching\<close>

lemma pmatch_le: "pmatch p s = Some n \<Longrightarrow> n \<le> length s"
  by (induction p s arbitrary: n rule: pmatch.induct) (auto split: if_splits)

lemma pmatch_Nil_None: "\<exists>a\<in>set p. consuming a \<Longrightarrow> pmatch p [] = None"
  by (induction p "[] :: string" rule: pmatch.induct) auto

lemma pmatch_pos: "\<exists>a\<in>set p. consuming a \<Longrightarrow> pmatch p s = Some n \<Longrightarrow> 0 < n"
  by (induction p s arbitrary: n rule: pmatch.induct) (auto split: if_splits)

lemma pmatch_Nil_Some: "pmatch r [] = Some k \<Longrightarrow> pmatch r w \<noteq> None"
  by (induction r w rule: pmatch.induct) (auto split: if_splits)

lemma pmatch_Nil_of_None: "pmatch r w = None \<Longrightarrow> pmatch r [] = None"
  using pmatch_Nil_Some by (cases "pmatch r []") auto

lemma pmatch_append_state:
  "(\<forall>r\<in>set (residuals p). pmatch r w = None) \<Longrightarrow> u \<noteq> [] \<or> p = [] \<or> pmatch p w = None \<Longrightarrow>
   pmatch p (u @ w) = pmatch p u"
proof (induction p u rule: pmatch.induct)
  case (1 s)
  then show ?case by simp
next
  case (2 c p)
  then show ?case by simp
next
  case (3 c p x xs)
  then show ?case by (cases "p = []") auto
next
  case (4 l u p)
  then show ?case by simp
next
  case (5 l u p x xs)
  then show ?case by (cases "p = []") auto
next
  case (6 p)
  then have "pmatch (Ws # p) w = None" by simp
  then show ?case using pmatch_Nil_of_None[of "Ws # p" w] by simp
next
  case (7 p x xs)
  then show ?case by auto
next
  case (8 p)
  then show ?case by simp
next
  case (9 p x xs)
  then show ?case by auto
next
  case (10 p)
  then have "pmatch (NameS # p) w = None" by simp
  then show ?case using pmatch_Nil_of_None[of "NameS # p" w] by simp
next
  case (11 p x xs)
  then show ?case by auto
qed

lemma pmatch_stable:
  "\<forall>r\<in>set (residuals p). pmatch r w = None \<Longrightarrow> u \<noteq> [] \<Longrightarrow> pmatch p (u @ w) = pmatch p u"
  by (rule pmatch_append_state) auto

text \<open>A character that no item of a pattern consumes ends every match before it.\<close>

lemma pmatch_barrier:
  "\<forall>a\<in>set p. \<not> accepts a x \<Longrightarrow> pmatch p (u @ x # v) = pmatch p u"
  by (induction p u rule: pmatch.induct) auto

lemma pmatch_barrier_None:
  assumes "\<forall>a\<in>set p. \<not> accepts a x" and "\<exists>a\<in>set p. consuming a"
  shows "pmatch p (x # v) = None"
  using pmatch_barrier[OF assms(1), of "[]" v] pmatch_Nil_None[OF assms(2)] by simp

subsection \<open>Scanning and replacing\<close>

lemma replace_all_id:
  "(\<forall>i<length s. m whole (off + i) (drop i s) = None) \<Longrightarrow> replace_all m whole off s = s"
proof (induction s arbitrary: off)
  case Nil
  then show ?case by simp
next
  case (Cons c cs)
  from Cons.prems have h0: "m whole off (c # cs) = None" by force
  have "\<forall>i<length cs. m whole (Suc off + i) (drop i cs) = None"
  proof (intro allI impI)
    fix i assume "i < length cs"
    then have "m whole (off + Suc i) (drop (Suc i) (c # cs)) = None"
      using Cons.prems by (metis Suc_less_eq length_Cons)
    then show "m whole (Suc off + i) (drop i cs) = None" by simp
  qed
  from Cons.IH[OF this] h0 show ?case by simp
qed

text \<open>Splitting a scan at a point that no match crosses.\<close>

lemma replace_all_split:
  assumes "\<forall>i<length a. m whole (off + i) (drop i a @ w) = m' whole' (off + i) (drop i a)"
      and "\<forall>i<length a. \<forall>n r. m' whole' (off + i) (drop i a) = Some (n, r) \<longrightarrow> i + n \<le> length a"
  shows "replace_all m whole off (a @ w)
         = replace_all m' whole' off a @ replace_all m whole (off + length a) w"
  using assms
proof (induction m' whole' off a rule: replace_all.induct)
  case (1 m' whole' off)
  then show ?case by simp
next
  case (2 m' whole' off c cs)
  have eq0: "m whole off (c # cs @ w) = m' whole' off (c # cs)"
    using 2(3) by force
  have sh: "\<And>k. k \<le> length cs \<Longrightarrow>
        (\<forall>i<length (drop k cs). m whole (Suc off + k + i) (drop i (drop k cs) @ w)
                                = m' whole' (Suc off + k + i) (drop i (drop k cs)))
      \<and> (\<forall>i<length (drop k cs). \<forall>n r. m' whole' (Suc off + k + i) (drop i (drop k cs)) = Some (n, r)
                                \<longrightarrow> i + n \<le> length (drop k cs))"
  proof (intro conjI allI impI)
    fix k i assume k: "k \<le> length cs" and i: "i < length (drop k cs)"
    then have lt: "Suc (k + i) < length (c # cs)" by simp
    have d: "drop (Suc (k + i)) (c # cs) = drop i (drop k cs)" by (simp add: add.commute)
    from 2(3) lt have "m whole (off + Suc (k + i)) (drop (Suc (k + i)) (c # cs) @ w)
                       = m' whole' (off + Suc (k + i)) (drop (Suc (k + i)) (c # cs))" by blast
    then show "m whole (Suc off + k + i) (drop i (drop k cs) @ w)
               = m' whole' (Suc off + k + i) (drop i (drop k cs))"
      unfolding d by (simp add: add.assoc)
    fix n r assume "m' whole' (Suc off + k + i) (drop i (drop k cs)) = Some (n, r)"
    then have "m' whole' (off + Suc (k + i)) (drop (Suc (k + i)) (c # cs)) = Some (n, r)"
      unfolding d by (simp add: add.assoc)
    with 2(4) lt have "Suc (k + i) + n \<le> length (c # cs)" by blast
    then show "i + n \<le> length (drop k cs)" by simp
  qed
  show ?case
  proof (cases "m' whole' off (c # cs)")
    case None
    from sh[of 0] have
      "replace_all m whole (Suc off) (cs @ w)
       = replace_all m' whole' (Suc off) cs @ replace_all m whole (Suc off + length cs) w"
      using 2(1)[OF None] by simp
    then show ?thesis using None eq0 by simp
  next
    case (Some nr)
    obtain n r where nr: "nr = (n, r)" by (cases nr)
    from 2(4) Some nr have le: "n \<le> Suc (length cs)" by force
    then have k: "n - 1 \<le> length cs" by simp
    from sh[OF k] 2(2)[OF Some nr[symmetric]]
    have ih: "replace_all m whole (Suc off + (n - 1)) (drop (n - 1) cs @ w)
       = replace_all m' whole' (Suc off + (n - 1)) (drop (n - 1) cs)
         @ replace_all m whole (Suc off + (n - 1) + length (drop (n - 1) cs)) w"
      by simp
    have l: "Suc off + (n - 1) + length (drop (n - 1) cs) = off + length (c # cs)"
      using k by simp
    have dr: "drop (n - 1) (cs @ w) = drop (n - 1) cs @ w" using k by simp
    show ?thesis using Some nr eq0 ih dr unfolding l by simp
  qed
qed

lemma replace_all_ctx_free:
  "replace_all (pat_matcher p r) whole off s = replace_all (pat_matcher p r) whole' off' s"
proof (induction s arbitrary: off off' rule: length_induct)
  case (1 s)
  show ?case
  proof (cases s)
    case Nil then show ?thesis by simp
  next
    case (Cons c cs)
    show ?thesis
    proof (cases "pmatch p (c # cs)")
      case None
      then show ?thesis using Cons 1[rule_format, of cs "Suc off" "Suc off'"]
        by (simp add: pat_matcher_def)
    next
      case (Some n)
      then show ?thesis using Cons 1[rule_format, of "drop (n - 1) cs" "Suc off + (n - 1)" "Suc off' + (n - 1)"]
        by (simp add: pat_matcher_def)
    qed
  qed
qed

lemma replace_pat_Nil: "replace_pat p r [] = []"
  by (simp add: replace_pat_def js_replace_def)

lemma replace_pat_Cons:
  "replace_pat p r (c # cs) =
     (case pmatch p (c # cs) of
        None \<Rightarrow> c # replace_pat p r cs
      | Some n \<Rightarrow> r @ replace_pat p r (drop (n - 1) cs))"
  unfolding replace_pat_def js_replace_def
  by (auto simp: pat_matcher_def split: option.splits
      intro: replace_all_ctx_free[unfolded pat_matcher_def])

lemma replace_pat_split:
  assumes "\<forall>q\<in>set (residuals p). pmatch q w = None"
  shows "replace_pat p r (a @ w) = replace_pat p r a @ replace_pat p r w"
proof -
  let ?m = "pat_matcher p r"
  have 1: "\<forall>i<length a. ?m (a @ w) (0 + i) (drop i a @ w) = ?m a (0 + i) (drop i a)"
    using pmatch_stable[OF assms] by (simp add: pat_matcher_def)
  have 2: "\<forall>i<length a. \<forall>n r'. ?m a (0 + i) (drop i a) = Some (n, r') \<longrightarrow> i + n \<le> length a"
  proof (intro allI impI)
    fix i n r' assume i: "i < length a" and "?m a (0 + i) (drop i a) = Some (n, r')"
    then have "pmatch p (drop i a) = Some n" by (auto simp: pat_matcher_def)
    from pmatch_le[OF this] i show "i + n \<le> length a" by simp
  qed
  from replace_all_split[of a ?m "a @ w" 0 w ?m a, OF 1 2]
  have "replace_all ?m (a @ w) 0 (a @ w) = replace_all ?m a 0 a @ replace_all ?m (a @ w) (length a) w"
    by simp
  also have "replace_all ?m (a @ w) (length a) w = replace_all ?m w 0 w"
    by (rule replace_all_ctx_free)
  finally show ?thesis by (simp add: replace_pat_def js_replace_def)
qed

lemma find_first_None: "find_first f s = None \<Longrightarrow> i \<le> length s \<Longrightarrow> f (drop i s) = None"
proof (induction s arbitrary: i)
  case Nil
  then show ?case by simp
next
  case (Cons c cs)
  then show ?case by (cases i) (auto split: option.splits)
qed

lemma find_first_NoneI: "(\<forall>i\<le>length s. f (drop i s) = None) \<Longrightarrow> find_first f s = None"
proof (induction s)
  case Nil
  then show ?case by simp
next
  case (Cons c cs)
  have "f (c # cs) = None" using Cons.prems[rule_format, of 0] by simp
  moreover have "\<forall>i\<le>length cs. f (drop i cs) = None"
    using Cons.prems[rule_format, of "Suc _"] by simp
  ultimately show ?case using Cons.IH by simp
qed

lemma lit_end_consuming: "lit_end p \<Longrightarrow> \<exists>a\<in>set p. consuming a"
  by (induction p rule: lit_end.induct) (auto split: atom.splits)

lemma lit_end_Cons: "p \<noteq> [] \<Longrightarrow> lit_end (a # p) = lit_end p"
  by (cases p) auto

lemma lit_end_tl: "lit_end (a # p) \<Longrightarrow> p \<noteq> [] \<Longrightarrow> lit_end p"
  by (cases p) auto

lemma pmatch_mono: "pmatch p u = Some k \<Longrightarrow> lit_end p \<Longrightarrow> pmatch p (u @ w) = Some k"
proof (induction p u arbitrary: k rule: pmatch.induct)
  case (6 p)
  then have "p \<noteq> []" by auto
  with 6 have "lit_end p" using lit_end_tl by blast
  then have "pmatch p [] = None" using lit_end_consuming pmatch_Nil_None by blast
  with 6 show ?case by simp
next
  case (10 p)
  then have "p \<noteq> []" by auto
  with 10 have "lit_end p" using lit_end_tl by blast
  then have "pmatch p [] = None" using lit_end_consuming pmatch_Nil_None by blast
  with 10 show ?case by simp
next
  case (3 c p x xs)
  then show ?case by (cases "p = []") (auto split: if_splits dest: lit_end_tl)
next
  case (5 l u p x xs)
  then show ?case by (cases "p = []") (auto split: if_splits dest: lit_end_tl)
next
  case (7 p x xs)
  then show ?case by (cases "p = []") (auto split: if_splits dest: lit_end_tl)
next
  case (9 p x xs)
  then show ?case by (cases "p = []") (auto split: if_splits simp: lit_end_Cons)
next
  case (11 p x xs)
  then show ?case by (cases "p = []") (auto split: if_splits dest: lit_end_tl)
qed auto

lemma takeWhile_append_lt:
  "length (takeWhile P u) < length u \<Longrightarrow> takeWhile P (u @ w) = takeWhile P u"
  by (metis append.right_neutral length_append less_irrefl_nat takeWhile_append1 takeWhile_append2 takeWhile_dropWhile_id set_takeWhileD
      takeWhile_eq_all_conv)

subsection \<open>Texts without a root block\<close>

lemma root_pat_lit_end: "lit_end root_pat"
  by (simp add: root_pat_nf)

lemma root_block_mono: "root_block u = Some x \<Longrightarrow> root_block (u @ w) = Some x"
proof -
  assume a: "root_block u = Some x"
  then obtain k where k: "pmatch root_pat u = Some k"
    by (auto simp: root_block_def split: option.splits)
  then have k': "pmatch root_pat (u @ w) = Some k"
    using pmatch_mono root_pat_lit_end by blast
  from pmatch_le[OF k] have d: "drop k (u @ w) = drop k u @ w" by simp
  let ?c = "takeWhile (\<lambda>c. c \<noteq> CHR ''}'') (drop k u)"
  from a k have lt: "length ?c < length (drop k u)" and x: "x = (k + length ?c + 1, ?c)"
    by (auto simp: root_block_def Let_def split: if_splits)
  have "takeWhile (\<lambda>c. c \<noteq> CHR ''}'') (drop k u @ w) = ?c"
    using lt by (rule takeWhile_append_lt)
  then show ?thesis using k' d lt x by (simp add: root_block_def Let_def)
qed

lemma no_root_prefix:
  assumes "find_first root_block (a @ w) = None"
  shows "find_first root_block a = None"
proof (rule find_first_NoneI, intro allI impI)
  fix i assume i: "i \<le> length a"
  from find_first_None[OF assms, of i] i have n: "root_block (drop i a @ w) = None" by simp
  show "root_block (drop i a) = None"
  proof (cases "root_block (drop i a)")
    case None then show ?thesis .
  next
    case (Some x)
    from root_block_mono[OF Some, of w] n show ?thesis by simp
  qed
qed

lemma remove_root_id: "find_first root_block s = None \<Longrightarrow> remove_root s = s"
  unfolding remove_root_def js_replace_def
  by (rule replace_all_id) (simp add: find_first_None)

lemma before_sweep_no_root:
  "find_first root_block s = None \<Longrightarrow> before_sweep s = special_patterns (list_patch s)"
  by (simp add: before_sweep_def variables_of_def subst_vars_def container_rule_def
      truthy_def remove_root_id)

subsection \<open>Splitting the list-display patch\<close>

lemma patch_match_prefix:
  assumes "\<forall>q\<in>set (residuals display_block). pmatch q w = None" and "i < length a"
  shows "patch_match (a @ w) i (drop i a @ w) = patch_match a i (drop i a)"
proof -
  from assms have p: "pmatch display_block (drop i a @ w) = pmatch display_block (drop i a)"
    using pmatch_stable by simp
  show ?thesis
  proof (cases "pmatch display_block (drop i a)")
    case None
    with p show ?thesis by (simp add: patch_match_def)
  next
    case (Some n)
    from pmatch_le[OF Some] have t1: "take n (drop i a @ w) = take n (drop i a)" by simp
    have t2: "take i (a @ w) = take i a" using assms(2) by simp
    show ?thesis by (simp only: patch_match_def p Some option.case t1 t2)
  qed
qed

lemma list_patch_split:
  assumes "\<forall>q\<in>set (residuals display_block). pmatch q w = None"
  shows "list_patch (a @ w) = list_patch a @ replace_all patch_match (a @ w) (length a) w"
proof -
  have 1: "\<forall>i<length a. patch_match (a @ w) (0 + i) (drop i a @ w) = patch_match a (0 + i) (drop i a)"
    using patch_match_prefix[OF assms] by simp
  have 2: "\<forall>i<length a. \<forall>n r. patch_match a (0 + i) (drop i a) = Some (n, r) \<longrightarrow> i + n \<le> length a"
  proof (intro allI impI)
    fix i n r assume i: "i < length a" and "patch_match a (0 + i) (drop i a) = Some (n, r)"
    then have "pmatch display_block (drop i a) = Some n"
      by (auto simp: patch_match_def Let_def split: option.splits)
    from pmatch_le[OF this] i show "i + n \<le> length a" by simp
  qed
  from replace_all_split[of a patch_match "a @ w" 0 w patch_match a, OF 1 2]
  show ?thesis by (simp add: list_patch_def js_replace_def)
qed

subsection \<open>The blockquote background\<close>

text \<open>
  No match of a pattern of an earlier or later stage begins inside the reference or inside
  its replacement, and none that begins before them reaches them.
\<close>

lemma res_hsl_fg: "\<forall>q\<in>set (residuals hsl_foreground). pmatch q (''var(--blockquote-background)'' @ b) = None"
  by (simp add: pats_nf is_space_def)

lemma in_hsl_fg: "replace_pat hsl_foreground r (''var(--blockquote-background)'' @ b)
   = ''var(--blockquote-background)'' @ replace_pat hsl_foreground r b"
  by (simp add: pats_nf replace_pat_Cons is_space_def)

lemma res_bq: "\<forall>q\<in>set (residuals var_blockquote). pmatch q (''var(--blockquote-background)'' @ b) = None"
  by (simp add: pats_nf is_space_def)

lemma in_bq: "replace_pat var_blockquote r (''var(--blockquote-background)'' @ b)
   = r @ replace_pat var_blockquote r b"
  by (simp add: pats_nf replace_pat_Cons is_space_def)

lemma res_sw: "\<forall>q\<in>set (residuals sweep_pat). pmatch q (''rgba(0,0,0,0.03)'' @ b) = None"
  by (simp add: pats_nf is_space_def is_name_def is_word_def)

lemma in_sw: "replace_pat sweep_pat r (''rgba(0,0,0,0.03)'' @ b)
   = ''rgba(0,0,0,0.03)'' @ replace_pat sweep_pat r b"
  by (simp add: pats_nf replace_pat_Cons is_space_def)

lemma res_patch_ref:
  "\<forall>q\<in>set (residuals display_block). pmatch q (''var(--blockquote-background)'' @ b) = None"
  by (simp add: pats_nf is_space_def)

lemma in_patch_ref:
  "\<exists>b'. replace_all patch_match whole off (''var(--blockquote-background)'' @ b)
        = ''var(--blockquote-background)'' @ b'"
  by (simp add: pats_nf patch_match_def is_space_def)

lemma res_hsl_bg: "\<forall>q\<in>set (residuals hsl_background). pmatch q (''var(--blockquote-background)'' @ b) = None"
  by (simp add: pats_nf is_space_def)

lemma in_hsl_bg: "replace_pat hsl_background r (''var(--blockquote-background)'' @ b)
   = ''var(--blockquote-background)'' @ replace_pat hsl_background r b"
  by (simp add: pats_nf replace_pat_Cons is_space_def)

lemma res_fg: "\<forall>q\<in>set (residuals var_foreground). pmatch q (''rgba(0,0,0,0.03)'' @ b) = None"
  by (simp add: pats_nf is_space_def)

lemma in_fg: "replace_pat var_foreground r (''rgba(0,0,0,0.03)'' @ b)
   = ''rgba(0,0,0,0.03)'' @ replace_pat var_foreground r b"
  by (simp add: pats_nf replace_pat_Cons is_space_def)

lemma res_bg: "\<forall>q\<in>set (residuals var_background). pmatch q (''rgba(0,0,0,0.03)'' @ b) = None"
  by (simp add: pats_nf is_space_def)

lemma in_bg: "replace_pat var_background r (''rgba(0,0,0,0.03)'' @ b)
   = ''rgba(0,0,0,0.03)'' @ replace_pat var_background r b"
  by (simp add: pats_nf replace_pat_Cons is_space_def)

lemma stage_hsl_fg:
  "replace_pat hsl_foreground r (a @ ''var(--blockquote-background)'' @ b)
   = replace_pat hsl_foreground r a @ ''var(--blockquote-background)'' @ replace_pat hsl_foreground r b"
  by (simp only: replace_pat_split[OF res_hsl_fg] in_hsl_fg)

lemma stage_hsl_bg:
  "replace_pat hsl_background r (a @ ''var(--blockquote-background)'' @ b)
   = replace_pat hsl_background r a @ ''var(--blockquote-background)'' @ replace_pat hsl_background r b"
  by (simp only: replace_pat_split[OF res_hsl_bg] in_hsl_bg)

lemma stage_bq:
  "replace_pat var_blockquote r (a @ ''var(--blockquote-background)'' @ b)
   = replace_pat var_blockquote r a @ r @ replace_pat var_blockquote r b"
  by (simp only: replace_pat_split[OF res_bq] in_bq)

lemma stage_fg:
  "replace_pat var_foreground r (a @ ''rgba(0,0,0,0.03)'' @ b)
   = replace_pat var_foreground r a @ ''rgba(0,0,0,0.03)'' @ replace_pat var_foreground r b"
  by (simp only: replace_pat_split[OF res_fg] in_fg)

lemma stage_bg:
  "replace_pat var_background r (a @ ''rgba(0,0,0,0.03)'' @ b)
   = replace_pat var_background r a @ ''rgba(0,0,0,0.03)'' @ replace_pat var_background r b"
  by (simp only: replace_pat_split[OF res_bg] in_bg)

lemma stage_sweep:
  "sweep (a @ ''rgba(0,0,0,0.03)'' @ b) = sweep a @ ''rgba(0,0,0,0.03)'' @ sweep b"
  by (simp only: sweep_def replace_pat_split[OF res_sw] in_sw)

lemma special_patterns_ref:
  "\<exists>b'. special_patterns (a @ ''var(--blockquote-background)'' @ b)
        = special_patterns a @ ''rgba(0,0,0,0.03)'' @ b'"
  unfolding special_patterns_def stage_hsl_fg stage_hsl_bg stage_bq stage_fg stage_bg
  by blast

text \<open>
  In a style sheet without a \<open>:root\<close> block, whatever stands before the reference, it is
  replaced by \<open>rgba(0,0,0,0.03)\<close> at its place.
\<close>

lemma blockquote_no_root:
  assumes "find_first root_block (a @ ''var(--blockquote-background)'' @ b) = None"
  shows "\<exists>rest. processCSS (a @ ''var(--blockquote-background)'' @ b)
               = processCSS a @ ''rgba(0,0,0,0.03)'' @ rest"
proof -
  let ?ref = "''var(--blockquote-background)''"
  from in_patch_ref obtain b1 where
    b1: "replace_all patch_match (a @ ?ref @ b) (length a) (?ref @ b) = ?ref @ b1" by blast
  have lp: "list_patch (a @ ?ref @ b) = list_patch a @ ?ref @ b1"
    by (simp only: list_patch_split[OF res_patch_ref] b1)
  from special_patterns_ref obtain b2 where
    b2: "special_patterns (list_patch a @ ?ref @ b1)
         = special_patterns (list_patch a) @ ''rgba(0,0,0,0.03)'' @ b2" by blast
  have sw: "sweep (special_patterns (list_patch a) @ ''rgba(0,0,0,0.03)'' @ b2)
            = sweep (special_patterns (list_patch a)) @ ''rgba(0,0,0,0.03)'' @ sweep b2"
    by (rule stage_sweep)
  have na: "find_first root_block a = None" using assms by (rule no_root_prefix)
  show ?thesis
    by (simp only: processCSS_def before_sweep_no_root[OF assms] before_sweep_no_root[OF na] lp b2 sw)
       blast
qed

subsection \<open>The list-display patcher\<close>

lemma display_block_head:
  assumes "pmatch display_block (c # t) = Some n"
  shows "c = CHR ''d'' \<or> c = CHR ''D''"
  using assms by (simp add: display_block_nf split: if_splits)

lemma display_block_consuming: "\<exists>a\<in>set display_block. consuming a"
  by (simp add: display_block_nf)

lemma res_d: "\<forall>q\<in>set (residuals display_block). pmatch q (CHR ''d'' # t) = None"
  by (simp add: display_block_nf is_space_def)

lemma res_D: "\<forall>q\<in>set (residuals display_block). pmatch q (CHR ''D'' # t) = None"
  by (simp add: display_block_nf is_space_def)

lemma patch_match_here:
  assumes "pmatch display_block (m @ b) = Some (length m)"
  shows "patch_match (a @ m @ b) (length a) (m @ b)
         = Some (length m, if li_open (drop (length a - 50) a) then ''display: list-item'' else m)"
  using assms by (simp add: patch_match_def)

lemma replace_all_here:
  assumes "mt whole off (c # cs) = Some (n, r)" and "0 < n"
  shows "replace_all mt whole off (c # cs) = r @ replace_all mt whole (off + n) (drop n (c # cs))"
proof -
  from assms(2) obtain k where k: "n = Suc k" by (cases n) auto
  show ?thesis using assms(1) unfolding k by simp
qed

text \<open>
  C5, as the code has it. A match of \<open>display\s*:\s*block\<close> (any letter case) is rewritten
  to \<open>display: list-item\<close> if and only if the 50 characters before it (fewer at the start
  of the text) contain \<open>li\<close>, optional white space and \<open>{\<close> with no \<open>}\<close> behind it;
  otherwise the match stays as it is. The text before the match is patched on its own and
  the scan goes on behind the match.
\<close>

theorem list_patch_window:
  assumes "pmatch display_block (m @ b) = Some (length m)"
  shows "list_patch (a @ m @ b)
         = list_patch a
           @ (if li_open (drop (length a - 50) a) then ''display: list-item'' else m)
           @ replace_all patch_match (a @ m @ b) (length a + length m) b"
proof -
  have pos: "0 < length m" using pmatch_pos[OF display_block_consuming assms] .
  then obtain c m' where m: "m = c # m'" by (cases m) auto
  from assms have "pmatch display_block (c # m' @ b) = Some (length m)" unfolding m by simp
  then have c: "c = CHR ''d'' \<or> c = CHR ''D''" by (rule display_block_head)
  have res: "\<forall>q\<in>set (residuals display_block). pmatch q (m @ b) = None"
    using c res_d[of "m' @ b"] res_D[of "m' @ b"] unfolding m by auto
  let ?whole = "a @ m @ b"
  let ?r = "if li_open (drop (length a - 50) a) then ''display: list-item'' else m"
  have pm: "patch_match ?whole (length a) (c # (m' @ b)) = Some (length m, ?r)"
    using patch_match_here[OF assms, of a] unfolding m by simp
  have "replace_all patch_match ?whole (length a) (c # (m' @ b))
        = ?r @ replace_all patch_match ?whole (length a + length m) (drop (length m) (c # (m' @ b)))"
    using pm pos by (rule replace_all_here)
  moreover have "drop (length m) (c # (m' @ b)) = b" unfolding m by simp
  moreover have "m @ b = c # (m' @ b)" unfolding m by simp
  ultimately have "replace_all patch_match ?whole (length a) (m @ b)
        = ?r @ replace_all patch_match ?whole (length a + length m) b"
    by (simp only:)
  with list_patch_split[OF res, of a] show ?thesis by (simp only:)
qed

theorem list_patch_window_witness:
  "pmatch display_block (''display: block'' @ ''; } p { display: block; }'')
     = Some (length ''display: block'')
   \<and> list_patch (''li { '' @ ''display: block'' @ ''; } p { display: block; }'')
     = ''li { '' @ ''display: list-item'' @ ''; } p { display: block; }''"
proof -
  have h: "pmatch display_block (''display: block'' @ ''; } p { display: block; }'')
           = Some (length ''display: block'')"
    by code_simp
  have 1: "list_patch ''li { '' = ''li { ''" by code_simp
  have 2: "li_open (drop (length ''li { '' - 50) ''li { '')" by code_simp
  have 3: "replace_all patch_match (''li { '' @ ''display: block'' @ ''; } p { display: block; }'')
             (length ''li { '' + length ''display: block'') ''; } p { display: block; }''
           = ''; } p { display: block; }''"
    by code_simp
  have "list_patch (''li { '' @ ''display: block'' @ ''; } p { display: block; }'')
        = ''li { '' @ ''display: list-item'' @ ''; } p { display: block; }''"
    using list_patch_window[OF h, of "''li { ''"] by (simp only: 1 2 3 if_True)
  with h show ?thesis by (rule conjI)
qed

lemma list_patch_example:
  "list_patch ''li { display: block; } p { display: block; }''
   = ''li { display: list-item; } p { display: block; }''"
  by code_simp

lemma list_patch_other_selector:
  "list_patch ''.bali { display: block; }'' = ''.bali { display: list-item; }''"
  by code_simp

text \<open>
  C5, as stated, fails for a declaration that is inside an \<open>li\<close> rule but more than 50
  characters behind its opening brace: the window does not reach \<open>li {\<close> and the
  declaration is left as it is.
\<close>

theorem list_patch_long_rule_counterexample:
  "list_patch ''li { margin: 0.3em 0; padding: 0 0 0 1em; color: #333333; display: block; }''
   = ''li { margin: 0.3em 0; padding: 0 0 0 1em; color: #333333; display: block; }''"
  by code_simp

subsection \<open>Style sheets without variable references\<close>

lemma var_open_nf [code]:
  "var_open =
    [Ci CHR ''v'' CHR ''V'', Ci CHR ''a'' CHR ''A'', Ci CHR ''r'' CHR ''R'', Ws, Ch CHR ''('']"
  by code_simp

lemma pmatch_Ch_Some:
  "pmatch (Ch c # p) s = Some n \<longleftrightarrow> (\<exists>xs k. s = c # xs \<and> pmatch p xs = Some k \<and> n = Suc k)"
  by (cases s) auto

lemma pmatch_Ci_Some:
  "pmatch (Ci l u # p) s = Some n \<longleftrightarrow>
   (\<exists>x xs k. s = x # xs \<and> (x = l \<or> x = u) \<and> pmatch p xs = Some k \<and> n = Suc k)"
  by (cases s) auto

text \<open>A match of a pattern holds a match of each of its parts.\<close>

lemma pmatch_later_part:
  "pmatch (p1 @ p2) s = Some n \<Longrightarrow> \<exists>j\<le>length s. pmatch p2 (drop j s) \<noteq> None"
proof (induction p1 s arbitrary: n rule: pmatch.induct)
  case (1 s)
  then show ?case by (intro exI[of _ 0]) simp
next
  case (3 c p x xs)
  then obtain k where "pmatch (p @ p2) xs = Some k" by (auto split: if_splits)
  from 3(1)[OF _ this] 3(2) obtain j where "j \<le> length xs" "pmatch p2 (drop j xs) \<noteq> None"
    by (auto split: if_splits)
  then show ?case by (intro exI[of _ "Suc j"]) simp
next
  case (5 l u p x xs)
  then obtain k where "pmatch (p @ p2) xs = Some k" by (auto split: if_splits)
  from 5(1)[OF _ this] 5(2) obtain j where "j \<le> length xs" "pmatch p2 (drop j xs) \<noteq> None"
    by (auto split: if_splits)
  then show ?case by (intro exI[of _ "Suc j"]) simp
next
  case (7 p x xs)
  show ?case
  proof (cases "is_space x")
    case True
    with 7(3) obtain k where "pmatch ((Ws # p) @ p2) xs = Some k" by auto
    from 7(1)[OF True this] obtain j where "j \<le> length xs" "pmatch p2 (drop j xs) \<noteq> None"
      by auto
    then show ?thesis by (intro exI[of _ "Suc j"]) simp
  next
    case False
    with 7(3) have "pmatch (p @ p2) (x # xs) = Some n" by simp
    from 7(2)[OF False this] show ?thesis .
  qed
next
  case (9 p x xs)
  then obtain k where x: "is_name x" and "pmatch ((NameS # p) @ p2) xs = Some k"
    by (auto split: if_splits)
  from 9(1)[OF this] obtain j where "j \<le> length xs" "pmatch p2 (drop j xs) \<noteq> None"
    by auto
  then show ?case by (intro exI[of _ "Suc j"]) simp
next
  case (11 p x xs)
  show ?case
  proof (cases "is_name x")
    case True
    with 11(3) obtain k where "pmatch ((NameS # p) @ p2) xs = Some k" by auto
    from 11(1)[OF True this] obtain j where "j \<le> length xs" "pmatch p2 (drop j xs) \<noteq> None"
      by auto
    then show ?thesis by (intro exI[of _ "Suc j"]) simp
  next
    case False
    with 11(3) have "pmatch (p @ p2) (x # xs) = Some n" by simp
    from 11(2)[OF False this] show ?thesis .
  qed
qed auto

lemma pmatch_first_part: "pmatch (p1 @ p2) s = Some n \<Longrightarrow> pmatch p1 s \<noteq> None"
  by (induction p1 s arbitrary: n rule: pmatch.induct) (auto split: if_splits)

lemma has_var_ci:
  "has_var (p1 @ Ci CHR ''v'' CHR ''V'' # Ci CHR ''a'' CHR ''A'' # Ci CHR ''r'' CHR ''R'' #
            Ws # Ch CHR ''('' # p2)"
  unfolding has_var_def
proof (intro allI impI)
  fix s n
  assume "pmatch (p1 @ Ci CHR ''v'' CHR ''V'' # Ci CHR ''a'' CHR ''A'' # Ci CHR ''r'' CHR ''R'' #
                  Ws # Ch CHR ''('' # p2) s = Some n"
  from pmatch_later_part[OF this] obtain j k where j: "j \<le> length s"
    and "pmatch (var_open @ p2) (drop j s) = Some k"
    by (auto simp: var_open_nf)
  from pmatch_first_part[OF this(2)] j
  show "\<exists>j\<le>length s. pmatch var_open (drop j s) \<noteq> None" by blast
qed

lemma has_var_ch:
  "has_var (p1 @ Ch CHR ''v'' # Ch CHR ''a'' # Ch CHR ''r'' # Ch CHR ''('' # p2)"
  unfolding has_var_def
proof (intro allI impI)
  fix s n
  assume "pmatch (p1 @ Ch CHR ''v'' # Ch CHR ''a'' # Ch CHR ''r'' # Ch CHR ''('' # p2) s = Some n"
  from pmatch_later_part[OF this] obtain j where j: "j \<le> length s"
    and "pmatch (Ch CHR ''v'' # Ch CHR ''a'' # Ch CHR ''r'' # Ch CHR ''('' # p2) (drop j s) \<noteq> None"
    by blast
  then have "pmatch var_open (drop j s) \<noteq> None"
    by (auto simp: var_open_nf pmatch_Ch_Some is_space_def)
  with j show "\<exists>j\<le>length s. pmatch var_open (drop j s) \<noteq> None" by blast
qed

lemma has_var_patterns:
  "has_var hsl_foreground" "has_var hsl_background" "has_var var_blockquote"
  "has_var var_foreground" "has_var var_background" "has_var sweep_pat" "has_var (var_ref name)"
proof -
  show "has_var hsl_foreground"
    using has_var_ci[of "[Ci CHR ''h'' CHR ''H'', Ci CHR ''s'' CHR ''S'', Ci CHR ''l'' CHR ''L'', Ws, Ch CHR ''('', Ws]"]
    by (simp add: hsl_foreground_nf)
  show "has_var hsl_background"
    using has_var_ci[of "[Ci CHR ''h'' CHR ''H'', Ci CHR ''s'' CHR ''S'', Ci CHR ''l'' CHR ''L'', Ws, Ch CHR ''('', Ws]"]
    by (simp add: hsl_background_nf)
  show "has_var var_blockquote" using has_var_ci[of "[]"] by (simp add: var_blockquote_nf)
  show "has_var var_foreground" using has_var_ci[of "[]"] by (simp add: var_foreground_nf)
  show "has_var var_background" using has_var_ci[of "[]"] by (simp add: var_background_nf)
  show "has_var sweep_pat" using has_var_ch[of "[]"] by (simp add: sweep_pat_nf)
  show "has_var (var_ref name)" using has_var_ch[of "[]"] by (simp add: var_ref_def lit_def)
qed

lemma no_var_no_match:
  assumes "\<not> mentions_var s" and "has_var p" and "i \<le> length s"
  shows "pmatch p (drop i s) = None"
proof (cases "pmatch p (drop i s)")
  case None
  then show ?thesis .
next
  case (Some n)
  with assms(2) obtain j where j: "j \<le> length (drop i s)"
    and m: "pmatch var_open (drop j (drop i s)) \<noteq> None"
    unfolding has_var_def by blast
  from assms(1) have "find_first (pmatch var_open) s = None" by (simp add: mentions_var_def)
  from find_first_None[OF this, of "j + i"] j assms(3) m show ?thesis by simp
qed

lemma replace_pat_no_var: "\<not> mentions_var s \<Longrightarrow> has_var p \<Longrightarrow> replace_pat p r s = s"
  unfolding replace_pat_def js_replace_def
  by (rule replace_all_id) (simp add: pat_matcher_def no_var_no_match)

lemma subst_var_no_var: "\<not> mentions_var s \<Longrightarrow> subst_var nv s = s"
  unfolding subst_var_def js_replace_def
  by (rule replace_all_id) (simp add: no_var_no_match has_var_patterns)

lemma subst_vars_no_var: "\<not> mentions_var s \<Longrightarrow> subst_vars vars s = s"
  unfolding subst_vars_def by (induction vars) (simp_all add: subst_var_no_var)

text \<open>
  C6, as the code has it. For a style sheet that contains no opening of a \<open>var\<close>
  reference (\<open>var\<close> in any letter case, optional white space, \<open>(\<close>), also after the steps
  below, \<open>processCSS\<close> returns the text with the synthesized
  \<open>.md-container\<close> rule before it when a font variable is defined, every \<open>:root\<close> block
  removed and the list-display patch applied; nothing else is changed.
\<close>

theorem no_var_resolution:
  assumes "\<not> mentions_var sheet"
      and "\<not> mentions_var (list_patch (remove_root (container_rule (variables_of sheet) @ sheet)))"
  shows "processCSS sheet = list_patch (remove_root (container_rule (variables_of sheet) @ sheet))"
proof -
  let ?t = "list_patch (remove_root (container_rule (variables_of sheet) @ sheet))"
  have b: "before_sweep sheet = special_patterns ?t"
    by (simp add: before_sweep_def Let_def subst_vars_no_var[OF assms(1)])
  have s: "special_patterns ?t = ?t"
    using assms(2) by (simp add: special_patterns_def replace_pat_no_var has_var_patterns)
  have "sweep ?t = ?t"
    using assms(2) by (simp add: sweep_def replace_pat_no_var has_var_patterns)
  with b s show ?thesis by (simp add: processCSS_def)
qed

theorem no_var_resolution_witness:
  "\<not> mentions_var '':root { --md-font-size: 16px; } li { display: block; }''
   \<and> \<not> mentions_var (list_patch (remove_root
         (container_rule (variables_of '':root { --md-font-size: 16px; } li { display: block; }'')
          @ '':root { --md-font-size: 16px; } li { display: block; }'')))
   \<and> processCSS '':root { --md-font-size: 16px; } li { display: block; }''
     = ''.md-container { font-size: 16px; line-height: 1.8; color: hsl(0, 0%, 3.9%); }\<newline> li { display: list-item; }''"
proof -
  let ?s = "'':root { --md-font-size: 16px; } li { display: block; }''"
  have e: "list_patch (remove_root (container_rule (variables_of ?s) @ ?s))
           = ''.md-container { font-size: 16px; line-height: 1.8; color: hsl(0, 0%, 3.9%); }\<newline> li { display: list-item; }''"
    by code_simp
  have h1: "\<not> mentions_var ?s" by code_simp
  have h2: "\<not> mentions_var (list_patch (remove_root (container_rule (variables_of ?s) @ ?s)))"
    unfolding e by code_simp
  from no_var_resolution[OF h1 h2] have "processCSS ?s
     = ''.md-container { font-size: 16px; line-height: 1.8; color: hsl(0, 0%, 3.9%); }\<newline> li { display: list-item; }''"
    by (simp only: e)
  with h1 h2 show ?thesis by blast
qed

text \<open>
  C6, as stated, fails for a text without a \<open>var\<close> reference and without a \<open>:root\<close> block: the
  list-display patcher rewrites the declaration of the \<open>li\<close> rule.
\<close>

theorem no_var_changed_counterexample:
  "\<not> mentions_var ''li { display: block; }''
   \<and> find_first root_block ''li { display: block; }'' = None
   \<and> processCSS ''li { display: block; }'' = ''li { display: list-item; }''"
  by code_simp

lemma container_rule_added:
  "processCSS '':root { --md-font-size: 16px; } p { margin: 0; }''
   = ''.md-container { font-size: 16px; line-height: 1.8; color: hsl(0, 0%, 3.9%); }\<newline> p { margin: 0; }''"
  by code_simp

lemma joined_by_root_removal: "processCSS ''va:root{}r(--x)'' = ''inherit''"
  by code_simp

subsection \<open>Texts kept at the end of the output\<close>

















subsection \<open>Characters of the output\<close>

lemma replace_all_fresh:
  "\<forall>off t n r. m whole off t = Some (n, r) \<longrightarrow> x \<notin> set t \<longrightarrow> x \<notin> set r \<Longrightarrow>
   x \<notin> set s \<Longrightarrow> x \<notin> set (replace_all m whole off s)"
proof (induction m whole off s rule: replace_all.induct)
  case (1 m whole off)
  show ?case by simp
next
  case (2 m whole off c cs)
  show ?case
  proof (cases "m whole off (c # cs)")
    case None
    with 2 show ?thesis by simp
  next
    case (Some nr)
    obtain n r where nr: "nr = (n, r)" by (cases nr)
    from 2(4) Some nr have r: "x \<notin> set r" using 2(3) by blast
    have "x \<notin> set (drop (n - 1) cs)" using 2(4) by (auto dest: in_set_dropD)
    from 2(2)[OF Some nr[symmetric] 2(3) this] r Some nr show ?thesis by simp
  qed
qed

lemma expand_repl_fresh:
  "x \<notin> set matched \<Longrightarrow> x \<notin> set bef \<Longrightarrow> x \<notin> set aft \<Longrightarrow> x \<notin> set v \<Longrightarrow> x \<noteq> CHR ''$'' \<Longrightarrow>
   x \<notin> set (expand_repl matched bef aft v)"
  by (induction matched bef aft v rule: expand_repl.induct) auto

lemma set_trim: "set (trim v) \<subseteq> set v"
  unfolding trim_def by (auto dest!: set_dropWhileD)




lemma update_member: "(a, b) \<in> set (AList.update k v al) \<Longrightarrow> (a, b) = (k, v) \<or> (a, b) \<in> set al"
  by (induction al) (auto split: if_splits)

lemma foldl_update_member:
  "(a, b) \<in> set (foldl (\<lambda>vars (name, val). AList.update name val vars) acc ds) \<Longrightarrow>
   (a, b) \<in> set acc \<or> (a, b) \<in> set ds"
proof (induction ds arbitrary: acc)
  case Nil
  then show ?case by simp
next
  case (Cons d ds)
  obtain k v where d: "d = (k, v)" by (cases d)
  from Cons.prems have "(a, b) \<in> set (foldl (\<lambda>vars (name, val). AList.update name val vars)
                                   (AList.update k v acc) ds)" by (simp add: d)
  from Cons.IH[OF this] show ?case using update_member[of a b k v acc] d by auto
qed




lemma subst_var_fresh:
  assumes "x \<notin> set s" and "x \<notin> set (snd nv)" and "x \<noteq> CHR ''$''"
  shows "x \<notin> set (subst_var nv s)"
  unfolding subst_var_def js_replace_def
proof (rule replace_all_fresh[OF _ assms(1)], intro allI impI)
  fix off t n r
  assume m: "(case pmatch (var_ref (fst nv)) t of None \<Rightarrow> None
              | Some n \<Rightarrow> Some (n, expand_repl (take n t) (take off s) (drop n t) (snd nv)))
             = Some (n, r)"
    and t: "x \<notin> set t"
  from m have r: "r = expand_repl (take n t) (take off s) (drop n t) (snd nv)"
    by (auto split: option.splits)
  have "x \<notin> set (take n t)" "x \<notin> set (drop n t)" "x \<notin> set (take off s)"
    using t assms(1) by (auto dest: in_set_takeD in_set_dropD)
  then show "x \<notin> set r" unfolding r using assms(2,3) by (intro expand_repl_fresh)
qed

lemma subst_vars_fresh:
  assumes "\<forall>nv\<in>set vars. x \<notin> set (snd nv)" and "x \<noteq> CHR ''$''"
  shows "x \<notin> set s \<Longrightarrow> x \<notin> set (subst_vars vars s)"
  using assms(1)
proof (induction vars arbitrary: s)
  case Nil
  then show ?case by (simp add: subst_vars_def)
next
  case (Cons nv vars)
  from Cons.prems have "x \<notin> set (subst_var nv s)"
    using subst_var_fresh[OF _ _ assms(2)] by simp
  from Cons.IH[OF this] Cons.prems(2) show ?case by (simp add: subst_vars_def)
qed






subsection \<open>The format selector\<close>


lemma default_no_lt: "CHR ''<'' \<notin> set DEFAULT_THEME_CSS"
  by (simp add: DEFAULT_THEME_CSS_def)



























text \<open>
  \<open>processCSS\<close> can put the opening of a \<open>style\<close> element together from a style sheet
  that has none, and \<open>render\<close> copies a \<open>style\<close> element of the sanitized HTML into its
  output.
\<close>

lemma style_tag_assembled:
  "\<not> contains ''<style'' '':root{--a:<sty;}var(--a)le>''
   \<and> processCSS '':root{--a:<sty;}var(--a)le>'' = ''<style>''"
  by code_simp

lemma style_of_the_input_kept:
  "case render failing_juice_env one_theme_store ''<style></style>'' None (Some HtmlPlain) no_options of
     Inl err \<Rightarrow> False
   | Inr r \<Rightarrow> style_blocks (html r) = 1"
  by (simp add: render_def Let_def failing_juice_env_def container_def style_blocks_def
      style_open_nf)

subsection \<open>The blockquote background in a rule\<close>

text \<open>
  The stages of \<open>processCSS\<close> are followed for a reference that stands in a rule, in a
  style sheet whose \<open>:root\<close> block may define other variables.
\<close>

lemma processCSS_resolve_with: "processCSS sheet = resolve_with (variables_of sheet) sheet"
  by (simp add: processCSS_def before_sweep_def resolve_with_def Let_def)

text \<open>Splitting a replacement behind a character that no match contains.\<close>

lemma replace_pat_split_at:
  assumes "\<forall>i<length a. pmatch p (drop i a @ w) = pmatch p (drop i a)"
  shows "replace_pat p r (a @ w) = replace_pat p r a @ replace_pat p r w"
proof -
  let ?m = "pat_matcher p r"
  have 1: "\<forall>i<length a. ?m (a @ w) (0 + i) (drop i a @ w) = ?m a (0 + i) (drop i a)"
    using assms by (simp add: pat_matcher_def)
  have 2: "\<forall>i<length a. \<forall>n r'. ?m a (0 + i) (drop i a) = Some (n, r') \<longrightarrow> i + n \<le> length a"
  proof (intro allI impI)
    fix i n r' assume i: "i < length a" and "?m a (0 + i) (drop i a) = Some (n, r')"
    then have "pmatch p (drop i a) = Some n" by (auto simp: pat_matcher_def)
    from pmatch_le[OF this] i show "i + n \<le> length a" by simp
  qed
  from replace_all_split[of a ?m "a @ w" 0 w ?m a, OF 1 2]
  have "replace_all ?m (a @ w) 0 (a @ w) = replace_all ?m a 0 a @ replace_all ?m (a @ w) (length a) w"
    by simp
  also have "replace_all ?m (a @ w) (length a) w = replace_all ?m w 0 w"
    by (rule replace_all_ctx_free)
  finally show ?thesis by (simp add: replace_pat_def js_replace_def)
qed

lemma replace_pat_id:
  "\<forall>i<length s. pmatch p (drop i s) = None \<Longrightarrow> replace_pat p r s = s"
  unfolding replace_pat_def js_replace_def
  by (rule replace_all_id) (simp add: pat_matcher_def)

lemma pmatch_behind_barrier:
  assumes "\<forall>a\<in>set p. \<not> accepts a x" and "u \<noteq> []" and "last u = x" and "i < length u"
  shows "pmatch p (drop i u @ w) = pmatch p (drop i u)"
proof -
  from assms(4) have ne: "drop i u \<noteq> []" by simp
  then have "last (drop i u) = x" using assms(3,4) by simp
  with ne obtain u' where u': "drop i u = u' @ [x]" by (metis append_butlast_last_id)
  have "pmatch p (u' @ x # w) = pmatch p u'" using assms(1) by (rule pmatch_barrier)
  moreover have "pmatch p (u' @ x # []) = pmatch p u'" using assms(1) by (rule pmatch_barrier)
  ultimately show ?thesis by (simp add: u')
qed

lemma replace_pat_barrier:
  assumes "\<forall>a\<in>set p. \<not> accepts a x" and "u = [] \<or> last u = x"
  shows "replace_pat p r (u @ w) = replace_pat p r u @ replace_pat p r w"
proof (cases "u = []")
  case True
  then show ?thesis by (simp add: replace_pat_Nil)
next
  case False
  with assms(2) have "last u = x" by simp
  with assms(1) False show ?thesis
    by (intro replace_pat_split_at allI impI pmatch_behind_barrier)
qed

lemma replace_pat_keeps_barrier:
  assumes "\<forall>a\<in>set p. \<not> accepts a x" and "\<exists>a\<in>set p. consuming a" and "u = [] \<or> last u = x"
  shows "replace_pat p r u = [] \<or> last (replace_pat p r u) = x"
proof (cases "u = []")
  case True
  then show ?thesis by (simp add: replace_pat_Nil)
next
  case False
  with assms(3) obtain u' where u': "u = u' @ [x]" by (metis append_butlast_last_id)
  have "replace_pat p r (u' @ [x]) = replace_pat p r u' @ replace_pat p r [x]"
    using pmatch_barrier[OF assms(1), of _ "[]"] by (intro replace_pat_split_at) simp
  moreover have "pmatch p [x] = None" using assms(1,2) by (rule pmatch_barrier_None)
  then have "replace_pat p r [x] = [x]" by (simp add: replace_pat_Cons replace_pat_Nil)
  ultimately show ?thesis by (simp add: u')
qed

text \<open>A value without \<open>$\<close> is written as it is.\<close>

lemma expand_repl_plain: "CHR ''$'' \<notin> set v \<Longrightarrow> expand_repl m b a v = v"
  by (induction m b a v rule: expand_repl.induct) auto

lemma subst_var_plain:
  assumes "CHR ''$'' \<notin> set v"
  shows "subst_var (n, v) s = replace_pat (var_ref n) v s"
proof -
  have "(\<lambda>whole off t. case pmatch (var_ref n) t of None \<Rightarrow> None
           | Some k \<Rightarrow> Some (k, expand_repl (take k t) (take off whole) (drop k t) v))
        = pat_matcher (var_ref n) v"
    by (auto simp: pat_matcher_def fun_eq_iff expand_repl_plain[OF assms] split: option.splits)
  then show ?thesis unfolding subst_var_def replace_pat_def fst_conv snd_conv by (rule arg_cong)
qed

lemma pmatch_lit_prefix: "pmatch (lit s @ q) t = Some k \<Longrightarrow> prefix s t"
proof (induction s arbitrary: t k)
  case Nil
  then show ?case by simp
next
  case (Cons c s)
  then show ?case by (cases t) (auto simp: lit_def split: if_splits)
qed

lemma contains_drop: "prefix q (drop i s) \<Longrightarrow> i \<le> length s \<Longrightarrow> contains q s"
proof (induction s arbitrary: i)
  case Nil
  then show ?case by simp
next
  case (Cons c cs)
  then show ?case by (cases i) auto
qed

lemma var_ref_needs_var:
  assumes "\<not> contains ''var('' s" and "i \<le> length s"
  shows "pmatch (var_ref n) (drop i s) = None"
proof (cases "pmatch (var_ref n) (drop i s)")
  case None
  then show ?thesis .
next
  case (Some k)
  then have "prefix ''var('' (drop i s)"
    unfolding var_ref_def by (rule pmatch_lit_prefix)
  from contains_drop[OF this assms(2)] assms(1) show ?thesis by simp
qed

lemma is_space_not_name: "is_space c \<Longrightarrow> \<not> is_name c"
  by (auto simp: is_space_def is_name_def is_word_def)

lemma not_name_chars:
  "\<not> is_name (CHR '')'')" "\<not> is_name (CHR ''('')" "\<not> is_name (CHR ''{'')" "\<not> is_name (CHR ''}'')"
  by (simp_all add: is_name_def is_word_def)

lemma var_ref_rejects:
  assumes "\<forall>c\<in>set n. is_name c" and "x = CHR ''{'' \<or> x = CHR ''}''"
  shows "\<forall>a\<in>set (var_ref n). \<not> accepts a x"
proof -
  from assms(2) have x: "\<not> is_name x" "\<not> is_space x" "x \<noteq> CHR '')''"
    using not_name_chars by (auto simp: is_space_def)
  have "\<forall>c\<in>set n. x \<noteq> c" using assms(1) x(1) by auto
  then show ?thesis using x assms(2) by (auto simp: var_ref_def lit_def)
qed

lemma var_ref_consuming: "\<exists>a\<in>set (var_ref n). consuming a"
  by (simp add: var_ref_def lit_def)

text \<open>
  A name over \<open>[\w-]\<close> does not match beyond the opening parenthesis of the reference,
  and another name does not match its name.
\<close>

lemma lit_name_stops:
  assumes "\<forall>c\<in>set m. is_name c" and "\<forall>c\<in>set u. is_name c"
      and "\<not> is_name x" and "\<not> is_space x" and "x \<noteq> CHR '')''"
  shows "pmatch (lit m @ [Ws, Ch (CHR '')'')]) (u @ x # w) = None"
  using assms(1,2)
proof (induction m arbitrary: u)
  case Nil
  show ?case
  proof (cases u)
    case Nil
    then show ?thesis using assms(4,5) by (simp add: lit_def)
  next
    case (Cons y ys)
    with Nil.prems(2) have "is_name y" by simp
    then have "\<not> is_space y" "y \<noteq> CHR '')''"
      using is_space_not_name not_name_chars(1) by auto
    then show ?thesis using Cons by (simp add: lit_def)
  qed
next
  case (Cons c m)
  show ?case
  proof (cases u)
    case Nil
    from Cons.prems(1) assms(3) have "x \<noteq> c" by auto
    then show ?thesis using Nil by (simp add: lit_def)
  next
    case (Cons y ys)
    have "pmatch (lit m @ [Ws, Ch (CHR '')'')]) (ys @ x # w) = None"
      using Cons.IH[of ys] Cons.prems Cons by simp
    then show ?thesis using Cons by (simp add: lit_def)
  qed
qed

lemma lit_name_stops_ref:
  assumes "\<forall>c\<in>set m. is_name c"
  shows "pmatch (lit m @ [Ws, Ch (CHR '')'')]) (''var(--blockquote-background)'' @ b) = None"
proof -
  have "pmatch (lit m @ [Ws, Ch (CHR '')'')]) (''var'' @ CHR ''('' # (''--blockquote-background)'' @ b)) = None"
    using assms by (rule lit_name_stops) (simp_all add: is_name_def is_word_def is_space_def)
  then show ?thesis by simp
qed

lemma lit_res_ref:
  assumes "\<forall>c\<in>set m. is_name c"
  shows "\<forall>q\<in>set (residuals (lit m @ [Ws, Ch (CHR '')'')])).
           pmatch q (''var(--blockquote-background)'' @ b) = None"
  using assms
proof (induction m)
  case Nil
  show ?case by (simp add: lit_def is_space_def)
next
  case (Cons c m)
  have "pmatch (lit m @ [Ws, Ch (CHR '')'')]) (''var(--blockquote-background)'' @ b) = None"
    using Cons.prems by (intro lit_name_stops_ref) simp
  with Cons show ?case by (simp add: lit_def)
qed

lemma var_ref_res_ref:
  assumes "\<forall>c\<in>set n. is_name c"
  shows "\<forall>q\<in>set (residuals (var_ref n)). pmatch q (''var(--blockquote-background)'' @ b) = None"
proof -
  have 1: "pmatch (lit n @ [Ws, Ch (CHR '')'')]) (''var(--blockquote-background)'' @ b) = None"
    using assms by (rule lit_name_stops_ref)
  have 2: "\<forall>q\<in>set (residuals (lit n @ [Ws, Ch (CHR '')'')])).
           pmatch q (''var(--blockquote-background)'' @ b) = None"
    using assms by (rule lit_res_ref)
  have r: "residuals (var_ref n)
           = [Ch (CHR ''a'') # Ch (CHR ''r'') # Ch (CHR ''('') # Ws # lit n @ [Ws, Ch (CHR '')'')],
              Ch (CHR ''r'') # Ch (CHR ''('') # Ws # lit n @ [Ws, Ch (CHR '')'')],
              Ch (CHR ''('') # Ws # lit n @ [Ws, Ch (CHR '')'')],
              Ws # lit n @ [Ws, Ch (CHR '')'')],
              Ws # lit n @ [Ws, Ch (CHR '')'')]]
             @ residuals (lit n @ [Ws, Ch (CHR '')'')])"
    by (simp add: var_ref_def lit_def)
  show ?thesis unfolding r using 1 2 by (simp add: is_space_def)
qed

lemma lit_other_name:
  assumes "\<forall>c\<in>set n. is_name c" and "\<forall>c\<in>set nm. is_name c" and "n \<noteq> nm"
  shows "pmatch (lit n @ [Ws, Ch (CHR '')'')]) (nm @ CHR '')'' # b) = None"
  using assms
proof (induction n arbitrary: nm)
  case Nil
  then obtain y ys where nm: "nm = y # ys" by (cases nm) auto
  with Nil.prems(2) have "is_name y" by simp
  then have "\<not> is_space y" "y \<noteq> CHR '')''"
    using is_space_not_name not_name_chars(1) by auto
  then show ?case using nm by (simp add: lit_def)
next
  case (Cons c n)
  show ?case
  proof (cases nm)
    case Nil
    from Cons.prems(1) not_name_chars(1) have "CHR '')'' \<noteq> c" by auto
    then show ?thesis using Nil by (simp add: lit_def)
  next
    case (Cons y ys)
    show ?thesis
    proof (cases "y = c")
      case True
      with Cons.prems Cons have "n \<noteq> ys" by simp
      from Cons.IH[OF _ _ this] Cons.prems Cons
      have "pmatch (lit n @ [Ws, Ch (CHR '')'')]) (ys @ CHR '')'' # b) = None" by simp
      then show ?thesis using Cons True by (simp add: lit_def)
    next
      case False
      then show ?thesis using Cons by (simp add: lit_def)
    qed
  qed
qed

lemma var_ref_other_name:
  assumes "\<forall>c\<in>set n. is_name c" and "n \<noteq> ''--blockquote-background''"
  shows "pmatch (var_ref n) (''var(--blockquote-background)'' @ b) = None"
proof -
  have "pmatch (lit n @ [Ws, Ch (CHR '')'')]) (''--blockquote-background'' @ CHR '')'' # b) = None"
    using assms by (intro lit_other_name) (simp_all add: is_name_def is_word_def)
  then show ?thesis by (simp add: var_ref_def lit_def is_space_def)
qed

lemma var_ref_head: "c \<noteq> CHR ''v'' \<Longrightarrow> pmatch (var_ref n) (c # t) = None"
  by (simp add: var_ref_def lit_def)

lemma var_ref_in_ref:
  assumes "\<forall>c\<in>set n. is_name c" and "n \<noteq> ''--blockquote-background''"
  shows "replace_pat (var_ref n) v (''var(--blockquote-background)'' @ b)
         = ''var(--blockquote-background)'' @ replace_pat (var_ref n) v b"
proof -
  have "replace_pat (var_ref n) v (''var(--blockquote-background)'' @ b)
        = CHR ''v'' # replace_pat (var_ref n) v (''ar(--blockquote-background)'' @ b)"
    using var_ref_other_name[OF assms, of b] by (simp add: replace_pat_Cons)
  also have "replace_pat (var_ref n) v (''ar(--blockquote-background)'' @ b)
             = ''ar(--blockquote-background)'' @ replace_pat (var_ref n) v b"
    by (simp add: replace_pat_Cons var_ref_head)
  finally show ?thesis by simp
qed

text \<open>The three points of a style sheet that no match of a reference crosses.\<close>

lemma subst_behind_brace:
  assumes "\<forall>c\<in>set n. is_name c" and "p = [] \<or> last p = CHR ''}''"
  shows "replace_pat (var_ref n) v (p @ w) = replace_pat (var_ref n) v p @ replace_pat (var_ref n) v w"
  using var_ref_rejects[OF assms(1)] assms(2) by (intro replace_pat_barrier) auto

lemma subst_selector:
  assumes "\<forall>c\<in>set n. is_name c" and "s1 = [] \<or> last s1 = CHR ''{''"
      and "\<not> contains ''var('' s1"
  shows "replace_pat (var_ref n) v (s1 @ w) = s1 @ replace_pat (var_ref n) v w"
proof -
  have "replace_pat (var_ref n) v (s1 @ w) = replace_pat (var_ref n) v s1 @ replace_pat (var_ref n) v w"
    using var_ref_rejects[OF assms(1)] assms(2) by (intro replace_pat_barrier) auto
  moreover have "replace_pat (var_ref n) v s1 = s1"
    using var_ref_needs_var[OF assms(3)] by (intro replace_pat_id) simp
  ultimately show ?thesis by simp
qed

lemma subst_before_ref:
  assumes "\<forall>c\<in>set n. is_name c" and "n \<noteq> ''--blockquote-background''"
  shows "replace_pat (var_ref n) v (s2 @ ''var(--blockquote-background)'' @ b)
         = replace_pat (var_ref n) v s2 @ ''var(--blockquote-background)'' @ replace_pat (var_ref n) v b"
  by (simp only: replace_pat_split[OF var_ref_res_ref[OF assms(1)]] var_ref_in_ref[OF assms])

text \<open>The names of the variables of a style sheet are over \<open>[\w-]\<close>.\<close>

lemma var_decl_name:
  assumes "var_decl s = Some (k, nm, v)"
  shows "\<forall>c\<in>set nm. is_name c"
proof -
  have "is_name (CHR ''-'')" by (simp add: is_name_def)
  then show ?thesis using assms
    by (auto simp: var_decl_def Let_def split: option.splits if_splits dest: set_takeWhileD)
qed

lemma var_decls_names: "(nm, v) \<in> set (var_decls s) \<Longrightarrow> \<forall>c\<in>set nm. is_name c"
proof (induction s rule: var_decls.induct)
  case 1
  then show ?case by simp
next
  case (2 c cs)
  show ?case
  proof (cases "var_decl (c # cs)")
    case None
    with 2 show ?thesis by auto
  next
    case (Some t)
    obtain n nm' v' where t: "t = (n, nm', v')" by (cases t)
    from 2(3) Some t have "(nm, v) = (trim nm', trim v') \<or> (nm, v) \<in> set (var_decls (drop (n - 1) cs))"
      by simp
    then show ?thesis
    proof
      assume "(nm, v) = (trim nm', trim v')"
      then show ?thesis using var_decl_name[OF Some[unfolded t]] set_trim[of nm'] by auto
    next
      assume "(nm, v) \<in> set (var_decls (drop (n - 1) cs))"
      from 2(2)[OF Some t[symmetric] refl this] show ?thesis .
    qed
  qed
qed

lemma variables_of_names:
  assumes "(nm, v) \<in> set (variables_of s)"
  shows "\<forall>c\<in>set nm. is_name c"
proof (cases "find_first root_block s")
  case None
  with assms show ?thesis by (simp add: variables_of_def)
next
  case (Some t)
  obtain n content where t: "t = (n, content)" by (cases t)
  from assms Some t have "(nm, v) \<in> set (foldl (\<lambda>vars (name, val). AList.update name val vars) []
                                     (var_decls content))"
    by (simp add: variables_of_def)
  from foldl_update_member[OF this] have "(nm, v) \<in> set (var_decls content)" by simp
  then show ?thesis by (rule var_decls_names)
qed

text \<open>The substitution of all variables keeps the rule and the reference in their places.\<close>

lemma subst_vars_Nil: "subst_vars [] s = s"
  by (simp add: subst_vars_def)

lemma subst_vars_Cons: "subst_vars (nv # vars) s = subst_vars vars (subst_var nv s)"
  by (simp add: subst_vars_def)

lemma other_plain_vars_Cons:
  "other_plain_vars ((n, v) # vars) \<longleftrightarrow>
     (\<forall>c\<in>set n. is_name c) \<and> n \<noteq> ''--blockquote-background'' \<and> CHR ''$'' \<notin> set v
     \<and> CHR ''{'' \<notin> set v \<and> other_plain_vars vars"
  by (auto simp: other_plain_vars_def)

lemma subst_vars_keeps_brace:
  "other_plain_vars vars \<Longrightarrow> p = [] \<or> last p = CHR ''}'' \<Longrightarrow>
   subst_vars vars p = [] \<or> last (subst_vars vars p) = CHR ''}''"
proof (induction vars arbitrary: p)
  case Nil
  then show ?case by (simp add: subst_vars_Nil)
next
  case (Cons nv vars)
  obtain n v where nv: "nv = (n, v)" by (cases nv)
  from Cons.prems(1) nv have n: "\<forall>c\<in>set n. is_name c" and d: "CHR ''$'' \<notin> set v"
    and o: "other_plain_vars vars" by (simp_all add: other_plain_vars_Cons)
  have "replace_pat (var_ref n) v p = [] \<or> last (replace_pat (var_ref n) v p) = CHR ''}''"
    using var_ref_rejects[OF n] var_ref_consuming Cons.prems(2)
    by (intro replace_pat_keeps_barrier) auto
  from Cons.IH[OF o this] show ?case by (simp add: subst_vars_Cons nv subst_var_plain[OF d])
qed

lemma subst_vars_no_brace:
  assumes "other_plain_vars vars" and "CHR ''{'' \<notin> set s"
  shows "CHR ''{'' \<notin> set (subst_vars vars s)"
  using assms by (intro subst_vars_fresh) (auto simp: other_plain_vars_def)

lemma subst_vars_rule:
  "other_plain_vars vars \<Longrightarrow> p = [] \<or> last p = CHR ''}'' \<Longrightarrow> s1 = [] \<or> last s1 = CHR ''{'' \<Longrightarrow>
   \<not> contains ''var('' s1 \<Longrightarrow>
   subst_vars vars (p @ s1 @ s2) = subst_vars vars p @ s1 @ subst_vars vars s2"
proof (induction vars arbitrary: p s2)
  case Nil
  then show ?case by (simp add: subst_vars_Nil)
next
  case (Cons nv vars)
  obtain n v where nv: "nv = (n, v)" by (cases nv)
  from Cons.prems(1) nv have n: "\<forall>c\<in>set n. is_name c" and d: "CHR ''$'' \<notin> set v"
    and o: "other_plain_vars vars" by (simp_all add: other_plain_vars_Cons)
  let ?r = "replace_pat (var_ref n) v"
  have k: "?r p = [] \<or> last (?r p) = CHR ''}''"
    using var_ref_rejects[OF n] var_ref_consuming Cons.prems(2)
    by (intro replace_pat_keeps_barrier) auto
  have "?r (p @ s1 @ s2) = ?r p @ s1 @ ?r s2"
    by (simp only: subst_behind_brace[OF n Cons.prems(2)] subst_selector[OF n Cons.prems(3,4)])
  then show ?case
    using Cons.IH[OF o k Cons.prems(3,4), of "?r s2"]
    by (simp add: subst_vars_Cons nv subst_var_plain[OF d])
qed

lemma subst_vars_rule_ref:
  "other_plain_vars vars \<Longrightarrow> p = [] \<or> last p = CHR ''}'' \<Longrightarrow> s1 = [] \<or> last s1 = CHR ''{'' \<Longrightarrow>
   \<not> contains ''var('' s1 \<Longrightarrow>
   subst_vars vars (p @ s1 @ s2 @ ''var(--blockquote-background)'' @ b)
   = subst_vars vars p @ s1 @ subst_vars vars s2 @ ''var(--blockquote-background)'' @ subst_vars vars b"
proof (induction vars arbitrary: p s2 b)
  case Nil
  then show ?case by (simp add: subst_vars_Nil)
next
  case (Cons nv vars)
  obtain n v where nv: "nv = (n, v)" by (cases nv)
  from Cons.prems(1) nv have n: "\<forall>c\<in>set n. is_name c" and d: "CHR ''$'' \<notin> set v"
    and ne: "n \<noteq> ''--blockquote-background''"
    and o: "other_plain_vars vars" by (simp_all add: other_plain_vars_Cons)
  let ?r = "replace_pat (var_ref n) v"
  have k: "?r p = [] \<or> last (?r p) = CHR ''}''"
    using var_ref_rejects[OF n] var_ref_consuming Cons.prems(2)
    by (intro replace_pat_keeps_barrier) auto
  have "?r (p @ s1 @ s2 @ ''var(--blockquote-background)'' @ b)
        = ?r p @ s1 @ ?r s2 @ ''var(--blockquote-background)'' @ ?r b"
    by (simp only: subst_behind_brace[OF n Cons.prems(2)] subst_selector[OF n Cons.prems(3,4)]
        subst_before_ref[OF n ne])
  then show ?case
    using Cons.IH[OF o k Cons.prems(3,4), of "?r s2" "?r b"]
    by (simp only: subst_vars_Cons nv subst_var_plain[OF d])
qed

text \<open>
  The removal of the root blocks: the opening of a root block ends with its brace, and a
  block that begins before a closing brace ends there at the latest.
\<close>

lemma pmatch_single: "pmatch [Ch x] (s @ x # w) = pmatch [Ch x] (s @ [x])"
  by (cases s) simp_all

lemma pmatch_last_atom:
  "\<forall>a\<in>set q. \<not> accepts a x \<Longrightarrow> pmatch (q @ [Ch x]) (u @ x # w) = pmatch (q @ [Ch x]) (u @ [x])"
proof (induction q u rule: pmatch.induct)
  case (1 s)
  show ?case unfolding append_Nil by (rule pmatch_single)
qed auto

lemma pmatch_needs_last: "pmatch (q @ [Ch x]) t = Some k \<Longrightarrow> x \<in> set t"
proof (induction q t arbitrary: k rule: pmatch.induct)
  case (1 s)
  then show ?case by (cases s) (auto split: if_splits)
qed (auto split: if_splits)

lemma root_pat_last:
  "root_pat = [Ci (CHR '':'') (CHR '':''), Ci (CHR ''r'') (CHR ''R''), Ci (CHR ''o'') (CHR ''O''),
               Ci (CHR ''o'') (CHR ''O''), Ci (CHR ''t'') (CHR ''T''), Ws] @ [Ch (CHR ''{'')]"
  by (simp add: root_pat_nf)

lemma root_pat_needs_brace: "pmatch root_pat t = Some k \<Longrightarrow> CHR ''{'' \<in> set t"
  unfolding root_pat_last by (rule pmatch_needs_last)

lemma root_pat_at_brace:
  "pmatch root_pat (u @ CHR ''{'' # w) = pmatch root_pat (u @ [CHR ''{''])"
  unfolding root_pat_last by (rule pmatch_last_atom) (simp add: is_space_def)

lemma root_pat_rejects_close: "\<forall>a\<in>set root_pat. \<not> accepts a (CHR ''}'')"
  by (simp add: root_pat_nf is_space_def)

lemma root_block_le: "root_block t = Some (n, c) \<Longrightarrow> n \<le> length t"
proof -
  assume a: "root_block t = Some (n, c)"
  then obtain k where k: "pmatch root_pat t = Some k"
    by (auto simp: root_block_def split: option.splits)
  from pmatch_le[OF k] a k show ?thesis
    by (auto simp: root_block_def Let_def split: if_splits)
qed

lemma root_block_barrier: "root_block ((u @ ''}'') @ w) = root_block (u @ ''}'')"
proof -
  have 1: "pmatch root_pat (u @ CHR ''}'' # w) = pmatch root_pat u"
    using root_pat_rejects_close by (rule pmatch_barrier)
  have 2: "pmatch root_pat (u @ CHR ''}'' # []) = pmatch root_pat u"
    using root_pat_rejects_close by (rule pmatch_barrier)
  show ?thesis
  proof (cases "pmatch root_pat u")
    case None
    with 1 2 show ?thesis by (simp add: root_block_def)
  next
    case (Some k)
    from pmatch_le[OF Some] have k: "k \<le> length u" .
    let ?P = "\<lambda>c. c \<noteq> CHR ''}''"
    let ?d = "drop k u @ ''}''"
    have "takeWhile ?P ?d \<noteq> ?d" by (simp add: takeWhile_eq_all_conv)
    moreover have "length (takeWhile ?P ?d) \<le> length ?d" by (rule length_takeWhile_le)
    ultimately have lt: "length (takeWhile ?P ?d) < length ?d"
      by (metis le_neq_implies_less length_takeWhile_le takeWhile_eq_take take_all_iff)
    then have tw: "takeWhile ?P (?d @ w) = takeWhile ?P ?d" by (rule takeWhile_append_lt)
    have d1: "drop k ((u @ ''}'') @ w) = ?d @ w" using k by simp
    have d2: "drop k (u @ ''}'') = ?d" using k by simp
    have p1: "pmatch root_pat ((u @ ''}'') @ w) = Some k" using 1 Some by simp
    have p2: "pmatch root_pat (u @ ''}'') = Some k" using 2 Some by simp
    have lt': "length (takeWhile ?P ?d) < length (?d @ w)" using lt by simp
    show ?thesis
      unfolding root_block_def p1 p2 option.case Let_def d1 d2 tw using lt lt' by simp
  qed
qed

lemma replace_all_no_ctx:
  assumes "\<And>whole off whole' off' t. m whole off t = m whole' off' t"
  shows "replace_all m whole off s = replace_all m whole' off' s"
proof (induction s arbitrary: off off' rule: length_induct)
  case (1 s)
  show ?case
  proof (cases s)
    case Nil then show ?thesis by simp
  next
    case (Cons c cs)
    have e: "m whole' off' (c # cs) = m whole off (c # cs)" by (rule assms)
    show ?thesis
    proof (cases "m whole off (c # cs)")
      case None
      then show ?thesis using Cons e 1[rule_format, of cs "Suc off" "Suc off'"] by simp
    next
      case (Some nr)
      obtain n r where nr: "nr = (n, r)" by (cases nr)
      show ?thesis
        using Some nr Cons e
          1[rule_format, of "drop (n - 1) cs" "Suc off + (n - 1)" "Suc off' + (n - 1)"]
        by simp
    qed
  qed
qed

lemma remove_root_Nil: "remove_root [] = []"
  by (simp add: remove_root_def js_replace_def)

lemma remove_root_Cons:
  "remove_root (c # cs) =
     (case root_block (c # cs) of
        None \<Rightarrow> c # remove_root cs
      | Some (n, content) \<Rightarrow> remove_root (drop (n - 1) cs))"
proof -
  let ?m = "\<lambda>(whole :: string) (off :: nat) t. map_option (\<lambda>(n, content :: string). (n, [] :: string)) (root_block t)"
  have nc: "\<And>off s whole'. replace_all ?m (c # cs) off s = replace_all ?m s 0 s"
    by (rule replace_all_no_ctx) simp
  show ?thesis
    unfolding remove_root_def js_replace_def
    by (auto simp: nc split: option.splits)
qed

lemma remove_root_split:
  assumes "\<forall>i<length a. root_block (drop i a @ w) = root_block (drop i a)"
  shows "remove_root (a @ w) = remove_root a @ remove_root w"
proof -
  let ?m = "\<lambda>(whole :: string) (off :: nat) t. map_option (\<lambda>(n, content :: string). (n, [] :: string)) (root_block t)"
  have 1: "\<forall>i<length a. ?m (a @ w) (0 + i) (drop i a @ w) = ?m a (0 + i) (drop i a)"
    using assms by simp
  have 2: "\<forall>i<length a. \<forall>n r'. ?m a (0 + i) (drop i a) = Some (n, r') \<longrightarrow> i + n \<le> length a"
  proof (intro allI impI)
    fix i n r' assume i: "i < length a" and "?m a (0 + i) (drop i a) = Some (n, r')"
    then obtain c where "root_block (drop i a) = Some (n, c)" by auto
    from root_block_le[OF this] i show "i + n \<le> length a" by simp
  qed
  from replace_all_split[of a ?m "a @ w" 0 w ?m a, OF 1 2]
  have "replace_all ?m (a @ w) 0 (a @ w) = replace_all ?m a 0 a @ replace_all ?m (a @ w) (length a) w"
    by simp
  also have "replace_all ?m (a @ w) (length a) w = replace_all ?m w 0 w"
    by (rule replace_all_no_ctx) simp
  finally show ?thesis by (simp add: remove_root_def js_replace_def)
qed

lemma root_block_head: "c \<noteq> CHR '':'' \<Longrightarrow> root_block (c # t) = None"
  by (simp add: root_block_def root_pat_nf)

lemma remove_root_ref:
  "remove_root (''var(--blockquote-background)'' @ b) = ''var(--blockquote-background)'' @ remove_root b"
  by (simp add: remove_root_Cons root_block_head)

lemma root_pat_res_ref:
  "\<forall>q\<in>set (residuals root_pat). pmatch q (''var(--blockquote-background)'' @ b) = None"
  by (simp add: root_pat_nf is_space_def)

lemma root_pat_res_Nil: "\<forall>q\<in>set (residuals root_pat). pmatch q [] = None"
  by (simp add: root_pat_nf)

lemma no_root_in_rule:
  assumes "s1 = [] \<or> last s1 = CHR ''{''" and "find_first (pmatch root_pat) s1 = None"
      and "CHR ''{'' \<notin> set s2" and "\<forall>q\<in>set (residuals root_pat). pmatch q w = None"
      and "j < length (s1 @ s2)"
  shows "pmatch root_pat (drop j (s1 @ s2) @ w) = None"
proof (cases "j < length s1")
  case True
  then have ne: "drop j s1 \<noteq> []" by simp
  from True assms(1) have "last (drop j s1) = CHR ''{''" by auto
  with ne obtain u where u: "drop j s1 = u @ [CHR ''{'']" by (metis append_butlast_last_id)
  have "pmatch root_pat (u @ CHR ''{'' # (s2 @ w)) = pmatch root_pat (u @ [CHR ''{''])"
    by (rule root_pat_at_brace)
  also have "\<dots> = None" using find_first_None[OF assms(2), of j] True u by simp
  finally show ?thesis using True u by simp
next
  case False
  with assms(5) have k: "j - length s1 < length s2" by simp
  have "pmatch root_pat (drop (j - length s1) s2 @ w) = pmatch root_pat (drop (j - length s1) s2)"
    using assms(4) k by (intro pmatch_stable) simp_all
  also have "\<dots> = None"
  proof (cases "pmatch root_pat (drop (j - length s1) s2)")
    case None then show ?thesis .
  next
    case (Some n)
    from root_pat_needs_brace[OF this] assms(3) show ?thesis by (auto dest: in_set_dropD)
  qed
  finally show ?thesis using False by simp
qed

lemma root_stage:
  assumes "Q = [] \<or> last Q = CHR ''}''"
      and "\<forall>j<length M. pmatch root_pat (drop j M @ w) = None"
      and "\<forall>j<length M. pmatch root_pat (drop j M) = None"
  shows "remove_root ((Q @ M) @ w) = remove_root (Q @ M) @ remove_root w"
proof (rule remove_root_split, intro allI impI)
  fix i assume i: "i < length (Q @ M)"
  show "root_block (drop i (Q @ M) @ w) = root_block (drop i (Q @ M))"
  proof (cases "i < length Q")
    case True
    then have ne: "drop i Q \<noteq> []" by simp
    from True assms(1) have "last (drop i Q) = CHR ''}''" by auto
    with ne obtain u where u: "drop i Q = u @ ''}''" by (metis append_butlast_last_id)
    have "root_block ((u @ ''}'') @ (M @ w)) = root_block (u @ ''}'')" by (rule root_block_barrier)
    moreover have "root_block ((u @ ''}'') @ M) = root_block (u @ ''}'')" by (rule root_block_barrier)
    ultimately show ?thesis using True u by simp
  next
    case False
    with i have j: "i - length Q < length M" by simp
    from assms(2,3) j have "pmatch root_pat (drop (i - length Q) M @ w) = None"
      "pmatch root_pat (drop (i - length Q) M) = None" by blast+
    then show ?thesis using False by (simp add: root_block_def)
  qed
qed

text \<open>The synthesized rule ends with a closing brace and a line break.\<close>

lemma container_rule_end:
  "container_rule vars = [] \<or> (\<exists>c. container_rule vars = c @ ''}\<newline>'')"
proof (cases "container_rule vars = []")
  case True
  then show ?thesis by simp
next
  case False
  then obtain t where "container_rule vars = (''.md-container { '' @ t @ ''; '') @ ''}\<newline>''"
    by (auto simp: container_rule_def Let_def split: if_splits)
  then show ?thesis by blast
qed

lemma root_stage_rule:
  assumes "P = [] \<or> last P = CHR ''}''"
      and "s1 = [] \<or> last s1 = CHR ''{''" and "find_first (pmatch root_pat) s1 = None"
      and "CHR ''{'' \<notin> set s2"
  shows "remove_root ((container_rule vars @ P @ s1 @ s2) @ ''var(--blockquote-background)'' @ b)
         = remove_root (container_rule vars @ P @ s1 @ s2) @ ''var(--blockquote-background)'' @ remove_root b"
proof -
  let ?w = "''var(--blockquote-background)'' @ b"
  have M: "\<And>w. \<forall>q\<in>set (residuals root_pat). pmatch q w = None \<Longrightarrow>
              \<forall>j<length (s1 @ s2). pmatch root_pat (drop j (s1 @ s2) @ w) = None"
    using no_root_in_rule[OF assms(2-4)] by blast
  have M1: "\<forall>j<length (s1 @ s2). pmatch root_pat (drop j (s1 @ s2) @ ?w) = None"
    using M[OF root_pat_res_ref] .
  have M2: "\<forall>j<length (s1 @ s2). pmatch root_pat (drop j (s1 @ s2)) = None"
    using M[OF root_pat_res_Nil] by simp
  have N: "\<And>w. \<forall>j<length (s1 @ s2). pmatch root_pat (drop j (s1 @ s2) @ w) = None \<Longrightarrow>
           \<forall>j<length (''\<newline>'' @ s1 @ s2). pmatch root_pat (drop j (''\<newline>'' @ s1 @ s2) @ w) = None"
  proof (intro allI impI)
    fix w j
    assume a: "\<forall>j<length (s1 @ s2). pmatch root_pat (drop j (s1 @ s2) @ w) = None"
       and j: "j < length (''\<newline>'' @ s1 @ s2)"
    show "pmatch root_pat (drop j (''\<newline>'' @ s1 @ s2) @ w) = None"
    proof (cases j)
      case 0
      then show ?thesis by (simp add: root_pat_nf)
    next
      case (Suc k)
      with j a show ?thesis by simp
    qed
  qed
  have "\<exists>Q M. container_rule vars @ P @ s1 @ s2 = Q @ M \<and> (Q = [] \<or> last Q = CHR ''}'')
          \<and> (\<forall>j<length M. pmatch root_pat (drop j M @ ?w) = None)
          \<and> (\<forall>j<length M. pmatch root_pat (drop j M) = None)"
  proof (cases "P = []")
    case False
    with assms(1) have "container_rule vars @ P = [] \<or> last (container_rule vars @ P) = CHR ''}''"
      by simp
    with M1 M2 show ?thesis
      by (intro exI[of _ "container_rule vars @ P"] exI[of _ "s1 @ s2"]) simp
  next
    case True
    from container_rule_end[of vars] show ?thesis
    proof
      assume "container_rule vars = []"
      with True M1 M2 show ?thesis
        by (intro exI[of _ "[]"] exI[of _ "s1 @ s2"]) simp
    next
      assume "\<exists>c. container_rule vars = c @ ''}\<newline>''"
      then obtain c where c: "container_rule vars = c @ ''}\<newline>''" by blast
      have "\<forall>j<length (''\<newline>'' @ s1 @ s2). pmatch root_pat (drop j (''\<newline>'' @ s1 @ s2) @ ?w) = None"
        using N[OF M1] .
      moreover have "\<forall>j<length (''\<newline>'' @ s1 @ s2). pmatch root_pat (drop j (''\<newline>'' @ s1 @ s2)) = None"
        using N[of "[]"] M2 by simp
      ultimately show ?thesis using True c
        by (intro exI[of _ "c @ ''}''"] exI[of _ "''\<newline>'' @ s1 @ s2"]) simp
    qed
  qed
  then obtain Q M where e: "container_rule vars @ P @ s1 @ s2 = Q @ M"
    and Q: "Q = [] \<or> last Q = CHR ''}''"
    and m1: "\<forall>j<length M. pmatch root_pat (drop j M @ ?w) = None"
    and m2: "\<forall>j<length M. pmatch root_pat (drop j M) = None" by blast
  have "remove_root ((Q @ M) @ ?w) = remove_root (Q @ M) @ remove_root ?w"
    using Q m1 m2 by (rule root_stage)
  then show ?thesis unfolding e[symmetric] remove_root_ref .
qed

lemma other_plain_vars_of:
  assumes "map_of (variables_of sheet) ''--blockquote-background'' = None"
      and "\<forall>nv\<in>set (variables_of sheet). CHR ''{'' \<notin> set (snd nv) \<and> CHR ''$'' \<notin> set (snd nv)"
  shows "other_plain_vars (variables_of sheet)"
  unfolding other_plain_vars_def
proof (rule ballI)
  fix nv assume nv: "nv \<in> set (variables_of sheet)"
  then have "(fst nv, snd nv) \<in> set (variables_of sheet)" by simp
  then have 1: "\<forall>c\<in>set (fst nv). is_name c" by (rule variables_of_names)
  from assms(1) have "''--blockquote-background'' \<notin> fst ` set (variables_of sheet)"
    by (simp add: map_of_eq_None_iff)
  with nv have 2: "fst nv \<noteq> ''--blockquote-background''" by force
  from assms(2) nv have 3: "CHR ''$'' \<notin> set (snd nv)" "CHR ''{'' \<notin> set (snd nv)" by blast+
  from 1 2 3 show "(\<forall>c\<in>set (fst nv). is_name c) \<and> fst nv \<noteq> ''--blockquote-background''
        \<and> CHR ''$'' \<notin> set (snd nv) \<and> CHR ''{'' \<notin> set (snd nv)" by blast
qed

text \<open>
  C4, as the code has it, for a style sheet whose \<open>:root\<close> block does not define
  \<open>--blockquote-background\<close> and gives no variable a value with \<open>{\<close> or \<open>$\<close>. The
  reference stands in a rule that is not the \<open>:root\<close> block: the text before it is \<open>p\<close>,
  which is empty or ends with a closing brace, then \<open>s1\<close>, the selector with its opening
  brace, without \<open>var(\<close> and without the opening of a \<open>:root\<close> block, then \<open>s2\<close>, the
  declarations before the reference, without a further opening brace. Then the reference
  is replaced by \<open>rgba(0,0,0,0.03)\<close> at its place: the output is the text before the
  reference resolved with the variables of the style sheet, then the literal, then the
  rest.
\<close>

theorem blockquote_shim:
  assumes "sheet = p @ s1 @ s2 @ ''var(--blockquote-background)'' @ b"
      and "map_of (variables_of sheet) ''--blockquote-background'' = None"
      and "\<forall>nv\<in>set (variables_of sheet). CHR ''{'' \<notin> set (snd nv) \<and> CHR ''$'' \<notin> set (snd nv)"
      and "p = [] \<or> last p = CHR ''}''"
      and "s1 = [] \<or> last s1 = CHR ''{''"
      and "\<not> contains ''var('' s1"
      and "find_first (pmatch root_pat) s1 = None"
      and "CHR ''{'' \<notin> set s2"
  shows "\<exists>rest. processCSS sheet
               = resolve_with (variables_of sheet) (p @ s1 @ s2) @ ''rgba(0,0,0,0.03)'' @ rest"
proof -
  let ?ref = "''var(--blockquote-background)''"
  let ?vars = "variables_of sheet"
  let ?P = "subst_vars ?vars p"
  let ?S = "subst_vars ?vars s2"
  let ?B = "subst_vars ?vars b"
  let ?X = "container_rule ?vars @ ?P @ s1 @ ?S"
  have o: "other_plain_vars ?vars" using assms(2,3) by (rule other_plain_vars_of)
  have sa: "subst_vars ?vars (p @ s1 @ s2) = ?P @ s1 @ ?S"
    using o assms(4,5,6) by (rule subst_vars_rule)
  have sb: "subst_vars ?vars sheet = ?P @ s1 @ ?S @ ?ref @ ?B"
    unfolding assms(1)[symmetric]
    using subst_vars_rule_ref[OF o assms(4,5,6), of s2 b] by (simp only: assms(1)[symmetric])
  have P: "?P = [] \<or> last ?P = CHR ''}''" using o assms(4) by (rule subst_vars_keeps_brace)
  have S: "CHR ''{'' \<notin> set ?S" using o assms(8) by (rule subst_vars_no_brace)
  have rr: "remove_root (?X @ ?ref @ ?B) = remove_root ?X @ ?ref @ remove_root ?B"
    using P assms(5,7) S by (rule root_stage_rule)
  from in_patch_ref obtain b1 where
    b1: "replace_all patch_match (remove_root ?X @ ?ref @ remove_root ?B) (length (remove_root ?X))
           (?ref @ remove_root ?B) = ?ref @ b1" by blast
  have lp: "list_patch (remove_root ?X @ ?ref @ remove_root ?B) = list_patch (remove_root ?X) @ ?ref @ b1"
    by (simp only: list_patch_split[OF res_patch_ref] b1)
  from special_patterns_ref obtain b2 where
    b2: "special_patterns (list_patch (remove_root ?X) @ ?ref @ b1)
         = special_patterns (list_patch (remove_root ?X)) @ ''rgba(0,0,0,0.03)'' @ b2" by blast
  have sw: "sweep (special_patterns (list_patch (remove_root ?X)) @ ''rgba(0,0,0,0.03)'' @ b2)
            = sweep (special_patterns (list_patch (remove_root ?X))) @ ''rgba(0,0,0,0.03)'' @ sweep b2"
    by (rule stage_sweep)
  have whole: "container_rule ?vars @ subst_vars ?vars sheet = ?X @ ?ref @ ?B"
    by (simp only: sb append_assoc)
  have pre: "container_rule ?vars @ subst_vars ?vars (p @ s1 @ s2) = ?X"
    by (simp only: sa)
  have "processCSS sheet
        = sweep (special_patterns (list_patch (remove_root ?X))) @ ''rgba(0,0,0,0.03)'' @ sweep b2"
    by (simp only: processCSS_resolve_with resolve_with_def whole rr lp b2 sw)
  moreover have "resolve_with ?vars (p @ s1 @ s2) = sweep (special_patterns (list_patch (remove_root ?X)))"
    by (simp only: resolve_with_def pre)
  ultimately show ?thesis by simp
qed

theorem blockquote_shim_witness:
  "'':root { --md-font-size: 16px; } q { font-size: var(--md-font-size); background: var(--blockquote-background); }''
     = '':root { --md-font-size: 16px; }'' @ '' q {'' @ '' font-size: var(--md-font-size); background: '' @
       ''var(--blockquote-background)'' @ ''; }''
   \<and> variables_of '':root { --md-font-size: 16px; } q { font-size: var(--md-font-size); background: var(--blockquote-background); }''
     = [(''--md-font-size'', ''16px'')]
   \<and> last '':root { --md-font-size: 16px; }'' = CHR ''}'' \<and> last '' q {'' = CHR ''{''
   \<and> \<not> contains ''var('' '' q {'' \<and> find_first (pmatch root_pat) '' q {'' = None
   \<and> CHR ''{'' \<notin> set '' font-size: var(--md-font-size); background: ''
   \<and> (\<exists>rest. processCSS '':root { --md-font-size: 16px; } q { font-size: var(--md-font-size); background: var(--blockquote-background); }''
        = resolve_with (variables_of '':root { --md-font-size: 16px; } q { font-size: var(--md-font-size); background: var(--blockquote-background); }'')
            ('':root { --md-font-size: 16px; }'' @ '' q {'' @ '' font-size: var(--md-font-size); background: '')
          @ ''rgba(0,0,0,0.03)'' @ rest)"
proof -
  let ?sheet = "'':root { --md-font-size: 16px; } q { font-size: var(--md-font-size); background: var(--blockquote-background); }''"
  have 1: "?sheet = '':root { --md-font-size: 16px; }'' @ '' q {'' @ '' font-size: var(--md-font-size); background: '' @
       ''var(--blockquote-background)'' @ ''; }''" by simp
  have v: "variables_of ?sheet = [(''--md-font-size'', ''16px'')]" by code_simp
  have 2: "map_of (variables_of ?sheet) ''--blockquote-background'' = None" unfolding v by simp
  have 3: "\<forall>nv\<in>set (variables_of ?sheet). CHR ''{'' \<notin> set (snd nv) \<and> CHR ''$'' \<notin> set (snd nv)"
    unfolding v by simp
  have 4: "'':root { --md-font-size: 16px; }'' = [] \<or> last '':root { --md-font-size: 16px; }'' = CHR ''}''" by simp
  have 5: "'' q {'' = [] \<or> last '' q {'' = CHR ''{''" by simp
  have 6: "\<not> contains ''var('' '' q {''" by simp
  have 7: "find_first (pmatch root_pat) '' q {'' = None" by code_simp
  have 8: "CHR ''{'' \<notin> set '' font-size: var(--md-font-size); background: ''" by simp
  have l4: "last '':root { --md-font-size: 16px; }'' = CHR ''}''" by simp
  have l5: "last '' q {'' = CHR ''{''" by simp
  from blockquote_shim[OF 1 2 3 4 5 6 7 8] 1 v l4 l5 6 7 8 show ?thesis by blast
qed

lemma blockquote_undefined_example:
  "processCSS '':root { --md-font-size: 16px; } q { font-size: var(--md-font-size); background: var(--blockquote-background); }''
   = ''.md-container { font-size: 16px; line-height: 1.8; color: hsl(0, 0%, 3.9%); }\<newline> q { font-size: 16px; background: rgba(0,0,0,0.03); }''
   \<and> resolve_with [(''--md-font-size'', ''16px'')]
         '':root { --md-font-size: 16px; } q { font-size: var(--md-font-size); background: ''
     = ''.md-container { font-size: 16px; line-height: 1.8; color: hsl(0, 0%, 3.9%); }\<newline> q { font-size: 16px; background: ''"
  by code_simp

text \<open>
  C4, as stated, fails when \<open>:root\<close> defines \<open>--blockquote-background\<close>: the substitution of
  the defined variables runs first and writes the defined value, so the later replacement
  by the gray finds no reference.
\<close>

theorem blockquote_defined_counterexample:
  "processCSS '':root { --blockquote-background: red; } blockquote { background: var(--blockquote-background); }''
   = '' blockquote { background: red; }''"
  by code_simp

text \<open>
  The other conditions are needed as well. A reference inside the \<open>:root\<close> block is removed
  with the block; so is a reference in a rule whose selector becomes \<open>:root\<close> by the
  substitution, and one behind a value that opens a \<open>:root\<close> block. A value with \<open>$'\<close>
  is a replacement pattern of \<open>String.prototype.replace\<close>: it copies the text behind the
  reference to the variable, here with the reference to \<open>--blockquote-background\<close> in it,
  so the text before the literal is not the resolved text before the reference.
\<close>

lemma reference_in_root_removed:
  "processCSS '':root{--a: var(--blockquote-background);}'' = []"
  by code_simp

lemma reference_behind_substituted_selector:
  "processCSS '':root{--x: :root;} var(--x){background: var(--blockquote-background)}'' = '' ''"
  by code_simp

lemma reference_behind_value_with_brace:
  "processCSS '':root{--x: :root{ ;} p{color: var(--x); background: var(--blockquote-background)}''
   = '' p{color: ''"
  by code_simp

lemma reference_behind_value_with_dollar:
  "processCSS ('':root{--x:$'' @ [CHR 0x27] @ '';} p{c:var(--x);b:var(--blockquote-background)}'')
   = '' p{c:;b:rgba(0,0,0,0.03)};b:rgba(0,0,0,0.03)}''
   \<and> resolve_with
         (variables_of ('':root{--x:$'' @ [CHR 0x27] @ '';} p{c:var(--x);b:var(--blockquote-background)}''))
         ('':root{--x:$'' @ [CHR 0x27] @ '';} p{c:var(--x);b:'')
     = '' p{c:;b:;b:''"
  by code_simp

end
